theory Spec2Isabelle
  imports Main "HOL-Library.Word"
begin

section \<open>Machine sizes\<close>

text \<open>
  The library runs on the ESP32, where \<open>size_t\<close> is an unsigned 32-bit integer.
  Sizes, offsets and counts are natural numbers below \<open>2 ^ 32\<close>; the operations that
  can leave that range in the source are written with their wrap-around.
  A byte (\<open>uint8_t\<close>) is an 8-bit word.
\<close>

type_synonym byte = "8 word"

definition SIZE_MAX :: nat where
  "SIZE_MAX = 4294967295"

definition size_t :: "nat \<Rightarrow> nat" where
  "size_t n = n mod 4294967296"

definition sub_size_t :: "nat \<Rightarrow> nat \<Rightarrow> nat" where
  \<comment> \<open>unsigned \<open>a - b\<close> of two \<open>size_t\<close> values\<close>
  "sub_size_t a b = (a + 4294967296 - b) mod 4294967296"

definition ESP_HIMEM_BLKSZ :: nat where
  "ESP_HIMEM_BLKSZ = 32 * 1024"

section \<open>The himem driver\<close>

text \<open>
  Modelled from the spec: the ESP-IDF himem driver (\<open>esp_himem_alloc\<close>,
  \<open>esp_himem_free\<close>, \<open>esp_himem_alloc_map_range\<close>, \<open>esp_himem_free_map_range\<close>,
  \<open>esp_himem_map\<close>, \<open>esp_himem_unmap\<close>) is only declared in the sources
  (\<open>esp32/himem.h\<close>). Following the hardware boundary of the specification, the driver
  is a state holding
  \<^item> the live allocations (handle and size in bytes) and the bytes of each of them,
  \<^item> the live mappings (mapped pointer, handle, byte offset of the mapped block),
  \<^item> a counter for fresh handles, ranges and pointers (0 is the null value),
  \<^item> for each kind of request that the hardware may deny, the outcome of the
    \<open>n\<close>-th such request (any function: the hardware decides) and the number of
    requests made so far,
  \<^item> a flag raised by an access through a pointer that has no live mapping, and
  \<^item> the sequence of driver calls made so far.
  A mapping request is granted only for a block that lies within a live allocation.
\<close>

datatype hw_event =
    Ev_alloc nat "nat option"
  | Ev_free nat
  | Ev_alloc_map_range "nat option"
  | Ev_free_map_range nat
  | Ev_map nat nat nat "nat option"
  | Ev_unmap nat nat

record himem_hw =
  hw_regions :: "(nat \<times> nat) list"
  hw_ram :: "nat \<Rightarrow> nat \<Rightarrow> byte"
  hw_maps :: "(nat \<times> nat \<times> nat) list"
  hw_next :: nat
  hw_alloc_ok :: "nat \<Rightarrow> bool"
  hw_alloc_calls :: nat
  hw_map_ok :: "nat \<Rightarrow> bool"
  hw_map_calls :: nat
  hw_fault :: bool
  hw_log :: "hw_event list"

definition esp_himem_alloc :: "himem_hw \<Rightarrow> nat \<Rightarrow> himem_hw \<times> nat option" where
  "esp_himem_alloc hw n =
     (if hw_alloc_ok hw (hw_alloc_calls hw)
      then (hw\<lparr>hw_regions := (hw_next hw, n) # hw_regions hw,
               hw_next := hw_next hw + 1,
               hw_alloc_calls := hw_alloc_calls hw + 1,
               hw_log := hw_log hw @ [Ev_alloc n (Some (hw_next hw))]\<rparr>,
            Some (hw_next hw))
      else (hw\<lparr>hw_alloc_calls := hw_alloc_calls hw + 1,
               hw_log := hw_log hw @ [Ev_alloc n None]\<rparr>,
            None))"

definition esp_himem_free :: "himem_hw \<Rightarrow> nat \<Rightarrow> himem_hw" where
  "esp_himem_free hw h =
     hw\<lparr>hw_regions := filter (\<lambda>r. fst r \<noteq> h) (hw_regions hw),
        hw_log := hw_log hw @ [Ev_free h]\<rparr>"

definition esp_himem_alloc_map_range :: "himem_hw \<Rightarrow> himem_hw \<times> nat option" where
  "esp_himem_alloc_map_range hw =
     (if hw_map_ok hw (hw_map_calls hw)
      then (hw\<lparr>hw_next := hw_next hw + 1,
               hw_map_calls := hw_map_calls hw + 1,
               hw_log := hw_log hw @ [Ev_alloc_map_range (Some (hw_next hw))]\<rparr>,
            Some (hw_next hw))
      else (hw\<lparr>hw_map_calls := hw_map_calls hw + 1,
               hw_log := hw_log hw @ [Ev_alloc_map_range None]\<rparr>,
            None))"

definition esp_himem_free_map_range :: "himem_hw \<Rightarrow> nat \<Rightarrow> himem_hw" where
  "esp_himem_free_map_range hw r = hw\<lparr>hw_log := hw_log hw @ [Ev_free_map_range r]\<rparr>"

definition block_in_region :: "himem_hw \<Rightarrow> nat \<Rightarrow> nat \<Rightarrow> bool" where
  "block_in_region hw h ram_offset =
     (case map_of (hw_regions hw) h of
        None \<Rightarrow> False
      | Some n \<Rightarrow> ram_offset + ESP_HIMEM_BLKSZ \<le> n)"

definition esp_himem_map :: "himem_hw \<Rightarrow> nat \<Rightarrow> nat \<Rightarrow> nat \<Rightarrow> himem_hw \<times> nat option" where
  "esp_himem_map hw h r ram_offset =
     (if hw_map_ok hw (hw_map_calls hw) \<and> block_in_region hw h ram_offset
      then (hw\<lparr>hw_maps := (hw_next hw, h, ram_offset) # hw_maps hw,
               hw_next := hw_next hw + 1,
               hw_map_calls := hw_map_calls hw + 1,
               hw_log := hw_log hw @ [Ev_map h r ram_offset (Some (hw_next hw))]\<rparr>,
            Some (hw_next hw))
      else (hw\<lparr>hw_map_calls := hw_map_calls hw + 1,
               hw_log := hw_log hw @ [Ev_map h r ram_offset None]\<rparr>,
            None))"

definition esp_himem_unmap :: "himem_hw \<Rightarrow> nat \<Rightarrow> nat \<Rightarrow> himem_hw" where
  "esp_himem_unmap hw r p =
     hw\<lparr>hw_maps := filter (\<lambda>m. fst m \<noteq> p) (hw_maps hw),
        hw_log := hw_log hw @ [Ev_unmap r p]\<rparr>"

text \<open>
  \<open>memcpy\<close> out of and into the mapped window: \<open>n\<close> bytes starting \<open>bo\<close> bytes
  after the mapped pointer \<open>p\<close>. The bytes are those of the allocation the pointer is
  mapped to. An access through a pointer without a live mapping raises the fault flag.
\<close>

definition window_load :: "himem_hw \<Rightarrow> nat \<Rightarrow> nat \<Rightarrow> nat \<Rightarrow> himem_hw \<times> byte list" where
  "window_load hw p bo n =
     (case map_of (hw_maps hw) p of
        None \<Rightarrow> (hw\<lparr>hw_fault := True\<rparr>, replicate n 0)
      | Some (h, off) \<Rightarrow> (hw, map (\<lambda>k. hw_ram hw h (off + bo + k)) [0..<n]))"

definition window_store :: "himem_hw \<Rightarrow> nat \<Rightarrow> nat \<Rightarrow> byte list \<Rightarrow> himem_hw" where
  "window_store hw p bo bs =
     (case map_of (hw_maps hw) p of
        None \<Rightarrow> hw\<lparr>hw_fault := True\<rparr>
      | Some (h, off) \<Rightarrow>
          hw\<lparr>hw_ram := (hw_ram hw)
                (h := (\<lambda>a. if off + bo \<le> a \<and> a < off + bo + length bs
                            then bs ! (a - (off + bo)) else hw_ram hw h a))\<rparr>)"

section \<open>HimemBlock\<close>

text \<open>
  The fields of \<open>class HimemBlock\<close>; \<open>range\<close> and \<open>size\<close> carry a suffix because
  the plain names are constants of HOL. Handles and pointers are numbers, 0 is null.
\<close>

record himem_block =
  handle :: nat
  range_h :: nat
  mapped_ptr :: nat
  size_b :: nat
  current_mapped_block :: nat

definition HimemBlock :: himem_block where
  \<comment> \<open>the default constructor, from the member initialisers\<close>
  "HimemBlock = \<lparr>handle = 0, range_h = 0, mapped_ptr = 0, size_b = 0,
                 current_mapped_block = SIZE_MAX\<rparr>"

definition round_up_blksz :: "nat \<Rightarrow> nat" where
  \<comment> \<open>\<open>((block_size + ESP_HIMEM_BLKSZ - 1) / ESP_HIMEM_BLKSZ) * ESP_HIMEM_BLKSZ\<close>
      in \<open>size_t\<close> arithmetic: the sum wraps, the product cannot\<close>
  "round_up_blksz block_size =
     (size_t (block_size + ESP_HIMEM_BLKSZ - 1) div ESP_HIMEM_BLKSZ) * ESP_HIMEM_BLKSZ"

definition allocate :: "himem_block \<Rightarrow> himem_hw \<Rightarrow> nat \<Rightarrow> himem_block \<times> himem_hw \<times> bool" where
  "allocate b hw block_size =
     (if handle b \<noteq> 0 then (b, hw, False)
      else
        let bs = round_up_blksz block_size;
            b1 = b\<lparr>size_b := bs\<rparr>;
            (hw1, r) = esp_himem_alloc hw bs
        in case r of
             None \<Rightarrow> (b1, hw1, False)
           | Some h \<Rightarrow> (b1\<lparr>handle := h\<rparr>, hw1, True))"

definition unmap :: "himem_block \<Rightarrow> himem_hw \<Rightarrow> himem_block \<times> himem_hw" where
  "unmap b hw =
     (if mapped_ptr b \<noteq> 0 \<and> range_h b \<noteq> 0
      then (b\<lparr>mapped_ptr := 0, range_h := 0, current_mapped_block := SIZE_MAX\<rparr>,
            esp_himem_free_map_range
              (esp_himem_unmap hw (range_h b) (mapped_ptr b)) (range_h b))
      else (b, hw))"

definition free :: "himem_block \<Rightarrow> himem_hw \<Rightarrow> himem_block \<times> himem_hw" where
  "free b hw =
     (if handle b \<noteq> 0
      then let (b1, hw1) = unmap b hw
           in (b1\<lparr>handle := 0, size_b := 0\<rparr>, esp_himem_free hw1 (handle b))
      else (b, hw))"

definition get_size :: "himem_block \<Rightarrow> nat" where
  "get_size b = size_b b"

definition ensure_block_mapped ::
  "himem_block \<Rightarrow> himem_hw \<Rightarrow> nat \<Rightarrow> himem_block \<times> himem_hw \<times> bool" where
  "ensure_block_mapped b hw block_index =
     (if block_index = current_mapped_block b then (b, hw, True)
      else
        let (b1, hw1) = (if mapped_ptr b \<noteq> 0 then unmap b hw else (b, hw));
            (hw2, r) = esp_himem_alloc_map_range hw1
        in case r of
             None \<Rightarrow> (b1, hw2, False)
           | Some rg \<Rightarrow>
               let b2 = b1\<lparr>range_h := rg\<rparr>;
                   (hw3, p) = esp_himem_map hw2 (handle b2) rg
                                (size_t (block_index * ESP_HIMEM_BLKSZ))
               in (case p of
                     None \<Rightarrow> (b2\<lparr>range_h := 0\<rparr>, esp_himem_free_map_range hw3 rg, False)
                   | Some ptr \<Rightarrow>
                       (b2\<lparr>mapped_ptr := ptr, current_mapped_block := block_index\<rparr>,
                        hw3, True)))"

text \<open>
  The \<open>while\<close> loops of \<open>read\<close> and \<open>write\<close>, with the loop variables of the
  source. \<open>len - bytes_read\<close> is taken under the loop condition
  \<open>bytes_read < len\<close>; \<open>ESP_HIMEM_BLKSZ - block_offset\<close> is the unsigned
  difference. \<open>memcpy\<close> replaces \<open>to_read\<close> bytes of the destination buffer from
  position \<open>bytes_read\<close> on.
\<close>

function read_loop ::
  "himem_block \<Rightarrow> himem_hw \<Rightarrow> byte list \<Rightarrow> nat \<Rightarrow> nat \<Rightarrow> nat \<Rightarrow> nat
     \<Rightarrow> himem_block \<times> himem_hw \<times> byte list \<times> nat" where
  "read_loop b hw dest len block_index block_offset bytes_read =
     (if bytes_read < len
      then (case ensure_block_mapped b hw block_index of
              (b1, hw1, ok) \<Rightarrow>
                if \<not> ok then (b1, hw1, dest, bytes_read)
                else
                  let block_remain = sub_size_t ESP_HIMEM_BLKSZ block_offset;
                      to_read = min block_remain (len - bytes_read);
                      (hw2, bs) = window_load hw1 (mapped_ptr b1) block_offset to_read;
                      dest1 = take bytes_read dest @ bs @ drop (bytes_read + to_read) dest
                  in read_loop b1 hw2 dest1 len (size_t (block_index + 1)) 0
                       (bytes_read + to_read))
      else (b, hw, dest, bytes_read))"
  by pat_completeness auto
termination
proof (relation "measures [\<lambda>(b, hw, dest, len, bi, bo, br). len - br,
                           \<lambda>(b, hw, dest, len, bi, bo, br). if bo = 0 then 0 else 1]")
  show "wf (measures [\<lambda>(b, hw, dest, len, bi, bo, br). len - br,
                      \<lambda>(b, hw, dest, len, bi, bo, br). if bo = 0 then 0 else 1])"
    by simp
next
  fix b :: himem_block and hw :: himem_hw and dest :: "byte list"
    and len block_index block_offset bytes_read :: nat
    and x :: "himem_block \<times> himem_hw \<times> bool" and b1 y hw1 ok block_remain to_read
      xa hw2 bs dest1
  assume lt: "bytes_read < len"
    and "block_remain = sub_size_t ESP_HIMEM_BLKSZ block_offset"
    and tr: "to_read = min block_remain (len - bytes_read)"
  show "((b1, hw2, dest1, len, size_t (block_index + 1), 0, bytes_read + to_read),
         (b, hw, dest, len, block_index, block_offset, bytes_read))
        \<in> measures [\<lambda>(b, hw, dest, len, bi, bo, br). len - br,
                     \<lambda>(b, hw, dest, len, bi, bo, br). if bo = 0 then 0 else 1]"
  proof (cases "to_read = 0")
    case True
    with lt tr \<open>block_remain = _\<close> have "sub_size_t ESP_HIMEM_BLKSZ block_offset = 0"
      by (simp add: min_def split: if_splits)
    then have "block_offset \<noteq> 0"
      by (rule_tac ccontr) (simp add: sub_size_t_def ESP_HIMEM_BLKSZ_def)
    with True show ?thesis by simp
  next
    case False
    with lt tr have "len - (bytes_read + to_read) < len - bytes_read" by arith
    then show ?thesis by simp
  qed
qed

declare read_loop.simps [simp del]

function write_loop ::
  "himem_block \<Rightarrow> himem_hw \<Rightarrow> byte list \<Rightarrow> nat \<Rightarrow> nat \<Rightarrow> nat \<Rightarrow> nat
     \<Rightarrow> himem_block \<times> himem_hw \<times> nat" where
  "write_loop b hw src len block_index block_offset bytes_written =
     (if bytes_written < len
      then (case ensure_block_mapped b hw block_index of
              (b1, hw1, ok) \<Rightarrow>
                if \<not> ok then (b1, hw1, bytes_written)
                else
                  let block_remain = sub_size_t ESP_HIMEM_BLKSZ block_offset;
                      to_write = min block_remain (len - bytes_written);
                      hw2 = window_store hw1 (mapped_ptr b1) block_offset
                              (take to_write (drop bytes_written src))
                  in write_loop b1 hw2 src len (size_t (block_index + 1)) 0
                       (bytes_written + to_write))
      else (b, hw, bytes_written))"
  by pat_completeness auto
termination
proof (relation "measures [\<lambda>(b, hw, src, len, bi, bo, bw). len - bw,
                           \<lambda>(b, hw, src, len, bi, bo, bw). if bo = 0 then 0 else 1]")
  show "wf (measures [\<lambda>(b, hw, src, len, bi, bo, bw). len - bw,
                      \<lambda>(b, hw, src, len, bi, bo, bw). if bo = 0 then 0 else 1])"
    by simp
next
  fix b :: himem_block and hw :: himem_hw and src :: "byte list"
    and len block_index block_offset bytes_written :: nat
    and x :: "himem_block \<times> himem_hw \<times> bool" and b1 y hw1 ok block_remain to_write hw2
  assume lt: "bytes_written < len"
    and br: "block_remain = sub_size_t ESP_HIMEM_BLKSZ block_offset"
    and tw: "to_write = min block_remain (len - bytes_written)"
  show "((b1, hw2, src, len, size_t (block_index + 1), 0, bytes_written + to_write),
         (b, hw, src, len, block_index, block_offset, bytes_written))
        \<in> measures [\<lambda>(b, hw, src, len, bi, bo, bw). len - bw,
                     \<lambda>(b, hw, src, len, bi, bo, bw). if bo = 0 then 0 else 1]"
  proof (cases "to_write = 0")
    case True
    with lt tw br have "sub_size_t ESP_HIMEM_BLKSZ block_offset = 0"
      by (simp add: min_def split: if_splits)
    then have "block_offset \<noteq> 0"
      by (rule_tac ccontr) (simp add: sub_size_t_def ESP_HIMEM_BLKSZ_def)
    with True show ?thesis by simp
  next
    case False
    with lt tw have "len - (bytes_written + to_write) < len - bytes_written" by arith
    then show ?thesis by simp
  qed
qed

declare write_loop.simps [simp del]

definition read ::
  "himem_block \<Rightarrow> himem_hw \<Rightarrow> byte list \<Rightarrow> nat \<Rightarrow> nat
     \<Rightarrow> himem_block \<times> himem_hw \<times> byte list \<times> nat" where
  "read b hw dest offset len =
     (if handle b = 0 \<or> offset \<ge> size_b b then (b, hw, dest, 0)
      else
        let len1 = min len (size_b b - offset)
        in if len1 = 0 then (b, hw, dest, 0)
           else read_loop b hw dest len1 (offset div ESP_HIMEM_BLKSZ)
                  (offset mod ESP_HIMEM_BLKSZ) 0)"

definition write_b ::
  "himem_block \<Rightarrow> himem_hw \<Rightarrow> byte list \<Rightarrow> nat \<Rightarrow> nat
     \<Rightarrow> himem_block \<times> himem_hw \<times> nat" where
  "write_b b hw src offset len =
     (if handle b = 0 \<or> offset \<ge> size_b b then (b, hw, 0)
      else
        let len1 = min len (size_b b - offset)
        in if len1 = 0 then (b, hw, 0)
           else write_loop b hw src len1 (offset div ESP_HIMEM_BLKSZ)
                  (offset mod ESP_HIMEM_BLKSZ) 0)"

text \<open>
  The move assignment \<open>this = std::move(other)\<close> of two distinct objects: the
  target is freed, takes over every field of the source, and the source is reset.
\<close>

definition move_assign ::
  "himem_block \<Rightarrow> himem_block \<Rightarrow> himem_hw \<Rightarrow> himem_block \<times> himem_block \<times> himem_hw" where
  "move_assign this other hw =
     (let (t1, hw1) = free this hw
      in (t1\<lparr>handle := handle other, range_h := range_h other,
              mapped_ptr := mapped_ptr other, size_b := size_b other,
              current_mapped_block := current_mapped_block other\<rparr>,
          other\<lparr>handle := 0, range_h := 0, mapped_ptr := 0, size_b := 0,
                 current_mapped_block := SIZE_MAX\<rparr>,
          hw1))"

text \<open>
  \<open>write\<close> and \<open>back\<close> are keywords of Isabelle, so these member functions are
  \<open>write_b\<close> and \<open>back_v\<close>.
\<close>

section \<open>VectorHIMEM\<close>

text \<open>
  The element type \<open>T\<close> is a template parameter of fixed layout: an element is the
  list of its \<open>sizeof(T)\<close> bytes, and \<open>sizeof(T)\<close> is the first argument
  \<open>esz\<close> of every operation. A local \<open>T temp\<close> is passed in and returned where
  it is \<open>static\<close>, and starts as zero bytes where it is an uninitialised local (every
  use overwrites it before reading it).
\<close>

record vector_himem =
  memory :: himem_block
  element_count :: nat
  element_capacity :: nat

definition min_elements :: nat where
  "min_elements = 16"

definition VectorHIMEM :: vector_himem where
  "VectorHIMEM = \<lparr>memory = HimemBlock, element_count = 0, element_capacity = 0\<rparr>"

definition calculate_size_bytes :: "nat \<Rightarrow> nat \<Rightarrow> nat" where
  "calculate_size_bytes esz count = size_t (count * esz)"

definition copy_element ::
  "nat \<Rightarrow> nat \<Rightarrow> himem_block \<times> himem_block \<times> himem_hw \<times> byte list
     \<Rightarrow> himem_block \<times> himem_block \<times> himem_hw \<times> byte list" where
  \<comment> \<open>one round of the copy loops: read element \<open>i\<close> of one block, write it to the other\<close>
  "copy_element esz i st =
     (case st of (from_m, to_m, hw, temp) \<Rightarrow>
        let (f1, hw1, t1, n) = read from_m hw temp (size_t (i * esz)) esz;
            (d1, hw2, k) = write_b to_m hw1 t1 (size_t (i * esz)) esz
        in (f1, d1, hw2, t1))"

definition reallocate ::
  "nat \<Rightarrow> vector_himem \<Rightarrow> himem_hw \<Rightarrow> nat \<Rightarrow> vector_himem \<times> himem_hw \<times> bool" where
  "reallocate esz v hw new_capacity =
     (if new_capacity \<le> element_capacity v then (v, hw, True)
      else
        let nc = max new_capacity min_elements;
            (new_memory, hw1, ok) = allocate HimemBlock hw (calculate_size_bytes esz nc)
        in if \<not> ok
           then (let (dead, hw2) = free new_memory hw1 in (v, hw2, False))
           else
             let (old1, new1, hw2, temp) =
                   (if element_count v > 0
                    then fold (copy_element esz) [0..<element_count v]
                           (memory v, new_memory, hw1, replicate esz 0)
                    else (memory v, new_memory, hw1, replicate esz 0));
                 (m, new2, hw3) = move_assign old1 new1 hw2;
                 (dead, hw4) = free new2 hw3
             in (v\<lparr>memory := m, element_capacity := get_size m div esz\<rparr>, hw4, True))"

datatype exn = Out_of_range

type_synonym access = "exn + (vector_himem \<times> himem_hw \<times> byte list)"

text \<open>
  The accessors return a reference to their \<open>static T temp\<close>: the result is the
  value of that buffer after the call to \<open>read\<close>, whose return value the source
  ignores. Only \<open>at\<close> has a \<open>throw\<close>.
\<close>

definition at_pos :: "nat \<Rightarrow> vector_himem \<Rightarrow> himem_hw \<Rightarrow> byte list \<Rightarrow> nat \<Rightarrow> access" where
  "at_pos esz v hw temp pos =
     (if pos \<ge> element_count v then Inl Out_of_range
      else let (m, hw1, t1, n) = read (memory v) hw temp (size_t (pos * esz)) esz
           in Inr (v\<lparr>memory := m\<rparr>, hw1, t1))"

definition subscript :: "nat \<Rightarrow> vector_himem \<Rightarrow> himem_hw \<Rightarrow> byte list \<Rightarrow> nat \<Rightarrow> access" where
  "subscript esz v hw temp pos =
     (let (m, hw1, t1, n) = read (memory v) hw temp (size_t (pos * esz)) esz
      in Inr (v\<lparr>memory := m\<rparr>, hw1, t1))"

definition front :: "nat \<Rightarrow> vector_himem \<Rightarrow> himem_hw \<Rightarrow> byte list \<Rightarrow> access" where
  "front esz v hw temp =
     (let (m, hw1, t1, n) = read (memory v) hw temp 0 esz
      in Inr (v\<lparr>memory := m\<rparr>, hw1, t1))"

definition back_v :: "nat \<Rightarrow> vector_himem \<Rightarrow> himem_hw \<Rightarrow> byte list \<Rightarrow> access" where
  "back_v esz v hw temp =
     (let (m, hw1, t1, n) =
            read (memory v) hw temp (size_t (sub_size_t (element_count v) 1 * esz)) esz
      in Inr (v\<lparr>memory := m\<rparr>, hw1, t1))"

definition size_v :: "vector_himem \<Rightarrow> nat" where
  "size_v v = element_count v"

definition capacity :: "vector_himem \<Rightarrow> nat" where
  "capacity v = element_capacity v"

definition reserve :: "nat \<Rightarrow> vector_himem \<Rightarrow> himem_hw \<Rightarrow> nat \<Rightarrow> vector_himem \<times> himem_hw" where
  "reserve esz v hw new_cap =
     (if new_cap > element_capacity v
      then let (v1, hw1, ok) = reallocate esz v hw new_cap in (v1, hw1)
      else (v, hw))"

definition clear :: "vector_himem \<Rightarrow> vector_himem" where
  "clear v = v\<lparr>element_count := 0\<rparr>"

definition grow_capacity :: "vector_himem \<Rightarrow> nat" where
  \<comment> \<open>\<open>element_capacity == 0 ? min_elements : element_capacity * 2\<close>\<close>
  "grow_capacity v =
     (if element_capacity v = 0 then min_elements else size_t (element_capacity v * 2))"

definition push_back ::
  "nat \<Rightarrow> vector_himem \<Rightarrow> himem_hw \<Rightarrow> byte list \<Rightarrow> vector_himem \<times> himem_hw" where
  "push_back esz v hw val =
     (let (v1, hw1, ok) =
            (if element_count v \<ge> element_capacity v
             then reallocate esz v hw (grow_capacity v)
             else (v, hw, True))
      in if \<not> ok then (v1, hw1)
         else
           let (m, hw2, n) = write_b (memory v1) hw1 val (size_t (element_count v1 * esz)) esz
           in (v1\<lparr>memory := m, element_count := size_t (element_count v1 + 1)\<rparr>, hw2))"

definition pop_back :: "vector_himem \<Rightarrow> vector_himem" where
  "pop_back v = (if element_count v > 0 then v\<lparr>element_count := element_count v - 1\<rparr> else v)"

definition resize :: "nat \<Rightarrow> vector_himem \<Rightarrow> himem_hw \<Rightarrow> nat \<Rightarrow> vector_himem \<times> himem_hw" where
  "resize esz v hw count =
     (let (v1, hw1, ok) =
            (if count > element_capacity v then reallocate esz v hw count else (v, hw, True))
      in if \<not> ok then (v1, hw1) else (v1\<lparr>element_count := count\<rparr>, hw1))"

definition fill_element ::
  "nat \<Rightarrow> byte list \<Rightarrow> nat \<Rightarrow> himem_block \<times> himem_hw \<Rightarrow> himem_block \<times> himem_hw" where
  "fill_element esz val i st =
     (case st of (m, hw) \<Rightarrow>
        let (m1, hw1, n) = write_b m hw val (size_t (i * esz)) esz in (m1, hw1))"

definition resize_val ::
  "nat \<Rightarrow> vector_himem \<Rightarrow> himem_hw \<Rightarrow> nat \<Rightarrow> byte list \<Rightarrow> vector_himem \<times> himem_hw" where
  "resize_val esz v hw count val =
     (let old_size = element_count v
      in if count > element_count v
         then
           let (v1, hw1, ok) =
                 (if count > element_capacity v then reallocate esz v hw count
                  else (v, hw, True))
           in if \<not> ok then (v1, hw1)
              else
                let (m, hw2) = fold (fill_element esz val) [old_size..<count] (memory v1, hw1)
                in (v1\<lparr>memory := m, element_count := count\<rparr>, hw2)
         else (v\<lparr>element_count := count\<rparr>, hw))"

definition move_element ::
  "nat \<Rightarrow> nat \<Rightarrow> nat \<Rightarrow> himem_block \<times> himem_hw \<times> byte list
     \<Rightarrow> himem_block \<times> himem_hw \<times> byte list" where
  \<comment> \<open>one round of the shift loops: read element \<open>i\<close> into \<open>temp\<close>, write it at \<open>j\<close>\<close>
  "move_element esz i j st =
     (case st of (m, hw, temp) \<Rightarrow>
        let (m1, hw1, t1, n) = read m hw temp (size_t (i * esz)) esz;
            (m2, hw2, k) = write_b m1 hw1 t1 (size_t (j * esz)) esz
        in (m2, hw2, t1))"

definition erase :: "nat \<Rightarrow> vector_himem \<Rightarrow> himem_hw \<Rightarrow> nat \<Rightarrow> vector_himem \<times> himem_hw" where
  "erase esz v hw pos =
     (if pos \<ge> element_count v then (v, hw)
      else
        let (m, hw1, temp) =
              fold (\<lambda>i. move_element esz i (i - 1)) [pos + 1..<element_count v]
                (memory v, hw, replicate esz 0)
        in (v\<lparr>memory := m, element_count := element_count v - 1\<rparr>, hw1))"

definition insert_at ::
  "nat \<Rightarrow> vector_himem \<Rightarrow> himem_hw \<Rightarrow> nat \<Rightarrow> byte list \<Rightarrow> vector_himem \<times> himem_hw" where
  "insert_at esz v hw pos val =
     (if pos > element_count v then (v, hw)
      else
        let (v1, hw1, ok) =
              (if element_count v \<ge> element_capacity v
               then reallocate esz v hw (grow_capacity v)
               else (v, hw, True))
        in if \<not> ok then (v1, hw1)
           else
             let (m, hw2, temp) =
                   fold (\<lambda>i. move_element esz (i - 1) i)
                     (rev [pos + 1..<element_count v1 + 1])
                     (memory v1, hw1, replicate esz 0);
                 (m1, hw3, n) = write_b m hw2 val (size_t (pos * esz)) esz
             in (v1\<lparr>memory := m1, element_count := size_t (element_count v1 + 1)\<rparr>, hw3))"

section \<open>Well-formed states\<close>

text \<open>
  The driver state is well formed when the identifiers it has handed out are non-null,
  below the counter and pairwise distinct, and every live mapping maps such a handle.
\<close>

definition hw_inv :: "himem_hw \<Rightarrow> bool" where
  "hw_inv hw \<longleftrightarrow>
     0 < hw_next hw
     \<and> list_all (\<lambda>m. 0 < fst m \<and> fst m < hw_next hw
                        \<and> 0 < fst (snd m) \<and> fst (snd m) < hw_next hw) (hw_maps hw)
     \<and> distinct (map fst (hw_maps hw))
     \<and> list_all (\<lambda>r. 0 < fst r \<and> fst r < hw_next hw) (hw_regions hw)
     \<and> distinct (map fst (hw_regions hw))"

definition live_mappings :: "himem_hw \<Rightarrow> himem_block \<Rightarrow> (nat \<times> nat \<times> nat) list" where
  \<comment> \<open>the live mappings of the blocks of this manager's allocation\<close>
  "live_mappings hw b = filter (\<lambda>m. fst (snd m) = handle b) (hw_maps hw)"

text \<open>
  A \<open>HimemBlock\<close> agrees with the driver when its allocation, if any, is live with
  the recorded size, a whole number of blocks below \<open>2 ^ 32\<close> bytes, and its window
  is either closed (null pointer, null range, sentinel index, no live mapping) or is
  the one live mapping of its allocation, at the recorded block.
\<close>

definition blk_inv :: "himem_hw \<Rightarrow> himem_block \<Rightarrow> bool" where
  "blk_inv hw b \<longleftrightarrow>
     size_b b \<le> SIZE_MAX
     \<and> (if handle b = 0 then mapped_ptr b = 0
         else map_of (hw_regions hw) (handle b) = Some (size_b b)
              \<and> ESP_HIMEM_BLKSZ dvd size_b b)
     \<and> (if mapped_ptr b = 0
         then range_h b = 0 \<and> current_mapped_block b = SIZE_MAX \<and> live_mappings hw b = []
         else range_h b \<noteq> 0
              \<and> live_mappings hw b =
                  [(mapped_ptr b, handle b,
                    size_t (current_mapped_block b * ESP_HIMEM_BLKSZ))]
              \<and> size_t (current_mapped_block b * ESP_HIMEM_BLKSZ) + ESP_HIMEM_BLKSZ
                  \<le> size_b b)"

text \<open>
  What the activity of the manager that owns allocation \<open>h\<close> may change in the
  driver: the bytes and the mappings of \<open>h\<close>, the counters of identifiers and of
  mapping requests, the fault flag and the log. Everything else stays.
\<close>

definition hw_frame :: "nat \<Rightarrow> himem_hw \<Rightarrow> himem_hw \<Rightarrow> bool" where
  "hw_frame h hw hw' \<longleftrightarrow>
     hw_regions hw' = hw_regions hw
     \<and> hw_alloc_ok hw' = hw_alloc_ok hw
     \<and> hw_alloc_calls hw' = hw_alloc_calls hw
     \<and> hw_map_ok hw' = hw_map_ok hw
     \<and> hw_next hw \<le> hw_next hw'
     \<and> (\<forall>h2. h2 \<noteq> h \<longrightarrow> hw_ram hw' h2 = hw_ram hw h2)
     \<and> (\<forall>h2. h2 \<noteq> h \<longrightarrow>
            filter (\<lambda>m. fst (snd m) = h2) (hw_maps hw')
            = filter (\<lambda>m. fst (snd m) = h2) (hw_maps hw))"

definition region_bytes :: "himem_hw \<Rightarrow> nat \<Rightarrow> nat \<Rightarrow> nat \<Rightarrow> byte list" where
  \<comment> \<open>the \<open>n\<close> bytes of allocation \<open>h\<close> from byte offset \<open>off\<close> on\<close>
  "region_bytes hw h off n = map (\<lambda>k. hw_ram hw h (off + k)) [0..<n]"

definition clamp_len :: "himem_block \<Rightarrow> nat \<Rightarrow> nat \<Rightarrow> nat" where
  \<comment> \<open>the number of bytes a transfer of \<open>len\<close> bytes at \<open>offset\<close> is cut down to\<close>
  "clamp_len b offset len =
     (if handle b = 0 \<or> size_b b \<le> offset then 0 else min len (size_b b - offset))"

definition free_calls :: "himem_hw \<Rightarrow> nat \<Rightarrow> nat" where
  \<comment> \<open>how often \<open>esp_himem_free\<close> has been called on handle \<open>h\<close>\<close>
  "free_calls hw h = length (filter (\<lambda>e. e = Ev_free h) (hw_log hw))"

text \<open>
  The states a manager can be in: it is constructed on a well-formed driver and then
  used through its member functions, with any arguments and any answers of the
  hardware.
\<close>

inductive reach :: "himem_hw \<Rightarrow> himem_block \<Rightarrow> bool" where
  reach_new: "hw_inv hw \<Longrightarrow> reach hw HimemBlock"
| reach_allocate: "reach hw b \<Longrightarrow> allocate b hw n = (b', hw', ok) \<Longrightarrow> reach hw' b'"
| reach_read: "reach hw b \<Longrightarrow> read b hw dest offset len = (b', hw', dest', n) \<Longrightarrow> reach hw' b'"
| reach_write: "reach hw b \<Longrightarrow> write_b b hw src offset len = (b', hw', n) \<Longrightarrow> reach hw' b'"
| reach_unmap: "reach hw b \<Longrightarrow> unmap b hw = (b', hw') \<Longrightarrow> reach hw' b'"
| reach_free: "reach hw b \<Longrightarrow> free b hw = (b', hw') \<Longrightarrow> reach hw' b'"
| reach_ensure: "reach hw b \<Longrightarrow> ensure_block_mapped b hw idx = (b', hw', ok) \<Longrightarrow> reach hw' b'"

section \<open>Example states\<close>

text \<open>
  A driver that has not been used, one that grants every request and one that denies
  every allocation; and a manager with an allocation of two blocks, as
  \<open>allocate\<close> leaves it.
\<close>

definition ex_hw0 :: himem_hw where
  "ex_hw0 = \<lparr>hw_regions = [], hw_ram = (\<lambda>h a. 0), hw_maps = [], hw_next = 1,
            hw_alloc_ok = (\<lambda>n. True), hw_alloc_calls = 0,
            hw_map_ok = (\<lambda>n. True), hw_map_calls = 0,
            hw_fault = False, hw_log = []\<rparr>"

definition ex_hw_deny :: himem_hw where
  "ex_hw_deny = ex_hw0\<lparr>hw_alloc_ok := (\<lambda>n. False)\<rparr>"

definition ex_hw1 :: himem_hw where
  "ex_hw1 = \<lparr>hw_regions = [(1, 65536)], hw_ram = (\<lambda>h a. 0), hw_maps = [], hw_next = 2,
            hw_alloc_ok = (\<lambda>n. True), hw_alloc_calls = 1,
            hw_map_ok = (\<lambda>n. True), hw_map_calls = 0,
            hw_fault = False, hw_log = [Ev_alloc 65536 (Some 1)]\<rparr>"

definition ex_blk1 :: himem_block where
  "ex_blk1 = \<lparr>handle = 1, range_h = 0, mapped_ptr = 0, size_b = 65536,
             current_mapped_block = SIZE_MAX\<rparr>"

definition ex_blk2 :: himem_block where
  "ex_blk2 = \<lparr>handle = 1, range_h = 2, mapped_ptr = 3, size_b = 65536,
             current_mapped_block = 0\<rparr>"

definition ex_hw2 :: himem_hw where
  "ex_hw2 = \<lparr>hw_regions = [(1, 65536)], hw_ram = (\<lambda>h a. 0), hw_maps = [(3, 1, 0)],
            hw_next = 4, hw_alloc_ok = (\<lambda>n. True), hw_alloc_calls = 1,
            hw_map_ok = (\<lambda>n. True), hw_map_calls = 2, hw_fault = False,
            hw_log = [Ev_alloc 65536 (Some 1), Ev_alloc_map_range (Some 2),
                      Ev_map 1 2 0 (Some 3)]\<rparr>"

section \<open>Well-formed vectors and their contents\<close>

text \<open>
  A vector agrees with the driver when its block does, its capacity is the size of the
  allocation in elements, the count is within the capacity, and it has no size without
  an allocation. Its contents are the elements stored at the indices below the count,
  element \<open>i\<close> being the \<open>esz\<close> bytes of the allocation from \<open>i * esz\<close> on.
\<close>

definition vec_inv :: "nat \<Rightarrow> himem_hw \<Rightarrow> vector_himem \<Rightarrow> bool" where
  "vec_inv esz hw v \<longleftrightarrow>
     0 < esz \<and> hw_inv hw \<and> blk_inv hw (memory v)
     \<and> element_count v \<le> element_capacity v
     \<and> element_capacity v = size_b (memory v) div esz
     \<and> (handle (memory v) = 0 \<longrightarrow> size_b (memory v) = 0)"

definition element_at :: "nat \<Rightarrow> himem_hw \<Rightarrow> vector_himem \<Rightarrow> nat \<Rightarrow> byte list" where
  "element_at esz hw v i = region_bytes hw (handle (memory v)) (i * esz) esz"

definition contents :: "nat \<Rightarrow> himem_hw \<Rightarrow> vector_himem \<Rightarrow> byte list list" where
  "contents esz hw v = map (element_at esz hw v) [0..<element_count v]"

definition access_value :: "access \<Rightarrow> exn + byte list" where
  \<comment> \<open>what the caller of an accessor sees: the exception or the referenced value\<close>
  "access_value r = (case r of Inl e \<Rightarrow> Inl e | Inr (v, hw, t) \<Rightarrow> Inr t)"

definition denied :: "himem_hw \<Rightarrow> nat \<Rightarrow> himem_hw" where
  \<comment> \<open>the driver after it has denied an allocation of \<open>n\<close> bytes\<close>
  "denied hw n = hw\<lparr>hw_alloc_calls := hw_alloc_calls hw + 1,
                      hw_log := hw_log hw @ [Ev_alloc n None]\<rparr>"

definition push_all ::
  "nat \<Rightarrow> byte list list \<Rightarrow> vector_himem \<times> himem_hw \<Rightarrow> vector_himem \<times> himem_hw" where
  \<comment> \<open>\<open>push_back\<close> of the elements of a list, one after the other\<close>
  "push_all esz xs st = fold (\<lambda>x (v, hw). push_back esz v hw x) xs st"

definition ex_vec1 :: vector_himem where
  "ex_vec1 = \<lparr>memory = ex_blk1, element_count = 2, element_capacity = 65536\<rparr>"

text \<open>
  A driver that grants the first four mapping requests and denies the later ones, and
  the vector and driver after \<open>push_back\<close> of the bytes 1 and 2, \<open>reserve(40000)\<close> and
  the access \<open>v[40000]\<close>: the vector holds 1 and 2 in an allocation of two blocks, and
  the access to the second block has closed the window.
\<close>

definition ex_hw_maps4 :: himem_hw where
  "ex_hw_maps4 = ex_hw0\<lparr>hw_map_ok := (\<lambda>n. n < 4)\<rparr>"

definition ex_path :: "vector_himem \<times> himem_hw" where
  "ex_path =
     (let (v1, hw1) = push_back 1 VectorHIMEM ex_hw_maps4 [1];
          (v2, hw2) = push_back 1 v1 hw1 [2];
          (v3, hw3) = reserve 1 v2 hw2 40000
      in case subscript 1 v3 hw3 [0] 40000 of
           Inr (v4, hw4, t) \<Rightarrow> (v4, hw4)
         | Inl e \<Rightarrow> (v3, hw3))"

section \<open>Facts about the driver and the window\<close>

lemma esp_himem_unmap_inv: "hw_inv hw \<Longrightarrow> hw_inv (esp_himem_unmap hw r p)"
  by (auto simp: hw_inv_def esp_himem_unmap_def list_all_iff distinct_map_filter)

lemma live_only_entry:
  assumes d: "distinct (map fst ms)" and l: "filter (\<lambda>m. fst (snd m) = h) ms = [(p, h, off)]"
  shows "filter (\<lambda>m. fst m \<noteq> p) ms = filter (\<lambda>m. fst (snd m) \<noteq> h) ms"
proof (rule filter_cong[OF refl])
  fix m assume m: "m \<in> set ms"
  have pin: "(p, h, off) \<in> set ms"
  proof -
    have "(p, h, off) \<in> set (filter (\<lambda>m. fst (snd m) = h) ms)" using l by simp
    then show ?thesis by simp
  qed
  show "(fst m \<noteq> p) = (fst (snd m) \<noteq> h)"
  proof (cases "fst m = p")
    case True
    then have "m = (p, h, off)"
      using d m pin by (metis eq_key_imp_eq_value prod.collapse)
    then show ?thesis by simp
  next
    case False
    have "fst (snd m) \<noteq> h"
    proof
      assume "fst (snd m) = h"
      then have "m \<in> set (filter (\<lambda>m. fst (snd m) = h) ms)" using m by simp
      then have "m = (p, h, off)" using l by simp
      then show False using False by simp
    qed
    with False show ?thesis by simp
  qed
qed

lemma filter_other_handle:
  "h2 \<noteq> h \<Longrightarrow> filter (\<lambda>x. fst (snd x) = h2 \<and> fst (snd x) \<noteq> h) ms
     = filter (\<lambda>m. fst (snd m) = h2) ms"
  by (rule filter_cong) auto

lemma unmap_spec:
  assumes "hw_inv hw" "blk_inv hw b"
  shows "case unmap b hw of (b', hw') \<Rightarrow>
           hw_inv hw' \<and> blk_inv hw' b' \<and> mapped_ptr b' = 0 \<and> handle b' = handle b
           \<and> size_b b' = size_b b \<and> hw_ram hw' = hw_ram hw \<and> hw_frame (handle b) hw hw'
           \<and> hw_fault hw' = hw_fault hw \<and> hw_map_calls hw' = hw_map_calls hw"
proof (cases "mapped_ptr b = 0")
  case True
  then show ?thesis using assms by (simp add: unmap_def hw_frame_def)
next
  case False
  from assms(2) False have rg: "range_h b \<noteq> 0"
    and lv: "filter (\<lambda>m. fst (snd m) = handle b) (hw_maps hw) =
             [(mapped_ptr b, handle b, size_t (current_mapped_block b * ESP_HIMEM_BLKSZ))]"
    by (simp_all add: blk_inv_def live_mappings_def)
  from assms(1) have d: "distinct (map fst (hw_maps hw))" by (simp add: hw_inv_def)
  note eq = live_only_entry[OF d lv]
  have inv: "hw_inv (esp_himem_free_map_range (esp_himem_unmap hw (range_h b) (mapped_ptr b)) (range_h b))"
    using assms(1) by (auto simp: hw_inv_def esp_himem_unmap_def esp_himem_free_map_range_def list_all_iff distinct_map_filter)
  show ?thesis
    using False rg assms(2) inv
    by (auto simp: unmap_def blk_inv_def live_mappings_def hw_frame_def esp_himem_unmap_def
        esp_himem_free_map_range_def eq conj_commute filter_other_handle)
qed

lemma unmap_if: "(if mapped_ptr b \<noteq> 0 then unmap b hw else (b, hw)) = unmap b hw"
  by (simp add: unmap_def)

lemma map_of_regions_null:
  "hw_inv hw \<Longrightarrow> map_of (hw_regions hw) 0 = None"
  by (force simp: hw_inv_def list_all_iff map_of_eq_None_iff)

lemma hw_inv_mono:
  assumes "hw_inv hw" "hw_maps hw' = hw_maps hw" "hw_regions hw' = hw_regions hw"
    "hw_next hw \<le> hw_next hw'"
  shows "hw_inv hw'"
proof -
  have a: "\<And>x. x < hw_next hw \<Longrightarrow> x < hw_next hw'" using assms(4) by simp
  show ?thesis
    using assms(1) unfolding hw_inv_def list_all_iff assms(2,3)
    by (intro conjI ballI) (auto intro: a)
qed

lemma handle_below_next:
  assumes "hw_inv hw" "map_of (hw_regions hw) h = Some n"
  shows "0 < h \<and> h < hw_next hw"
proof -
  from assms(2) have "(h, n) \<in> set (hw_regions hw)" by (rule map_of_SomeD)
  with assms(1) show ?thesis unfolding hw_inv_def list_all_iff by fastforce
qed

lemma blk_inv_cong:
  "blk_inv hw b \<Longrightarrow> hw_maps hw' = hw_maps hw \<Longrightarrow> hw_regions hw' = hw_regions hw
     \<Longrightarrow> blk_inv hw' b"
  unfolding blk_inv_def live_mappings_def by simp

lemma hw_frame_refl_on:
  "hw_maps hw' = hw_maps hw \<Longrightarrow> hw_regions hw' = hw_regions hw
     \<Longrightarrow> hw_alloc_ok hw' = hw_alloc_ok hw \<Longrightarrow> hw_alloc_calls hw' = hw_alloc_calls hw
     \<Longrightarrow> hw_map_ok hw' = hw_map_ok hw \<Longrightarrow> hw_next hw \<le> hw_next hw'
     \<Longrightarrow> (\<And>h2. h2 \<noteq> h \<Longrightarrow> hw_ram hw' h2 = hw_ram hw h2)
     \<Longrightarrow> hw_frame h hw hw'"
  by (simp add: hw_frame_def)

lemma hw_frame_trans:
  "hw_frame h hw hw1 \<Longrightarrow> hw_frame h hw1 hw2 \<Longrightarrow> hw_frame h hw hw2"
  by (simp add: hw_frame_def)

lemma hw_frame_refl: "hw_frame h hw hw"
  by (simp add: hw_frame_def)

text \<open>opening a window on a block whose window is closed\<close>
lemma open_window:
  assumes i: "hw_inv hw" and bi: "blk_inv hw b" and mp: "mapped_ptr b = 0"
    and hw': "hw' = hw\<lparr>hw_maps := (p, handle b, size_t (idx * ESP_HIMEM_BLKSZ)) # hw_maps hw,
                        hw_next := nx, hw_map_calls := c, hw_log := l\<rparr>"
    and p: "hw_next hw \<le> p" "p < nx" "rg \<noteq> 0"
    and fit: "size_t (idx * ESP_HIMEM_BLKSZ) + ESP_HIMEM_BLKSZ \<le> size_b b"
    and h: "handle b \<noteq> 0"
  shows "hw_inv hw'"
    and "blk_inv hw' (b\<lparr>range_h := rg, mapped_ptr := p, current_mapped_block := idx\<rparr>)"
    and "hw_frame (handle b) hw hw'"
proof -
  from i p have p0: "0 < p" by (simp add: hw_inv_def)
  from bi h have "map_of (hw_regions hw) (handle b) = Some (size_b b)"
    by (simp add: blk_inv_def)
  from handle_below_next[OF i this] have hb: "0 < handle b" "handle b < hw_next hw" by simp_all
  have old: "\<And>m. m \<in> set (hw_maps hw) \<Longrightarrow>
      0 < fst m \<and> fst m < hw_next hw \<and> 0 < fst (snd m) \<and> fst (snd m) < hw_next hw"
    using i unfolding hw_inv_def list_all_iff by blast
  have oldr: "\<And>r. r \<in> set (hw_regions hw) \<Longrightarrow> 0 < fst r \<and> fst r < hw_next hw"
    using i unfolding hw_inv_def list_all_iff by blast
  have d: "distinct (map fst (hw_maps hw))" "distinct (map fst (hw_regions hw))"
    using i unfolding hw_inv_def by simp_all
  have fresh: "p \<notin> fst ` set (hw_maps hw)"
  proof
    assume "p \<in> fst ` set (hw_maps hw)"
    then obtain m where "m \<in> set (hw_maps hw)" "fst m = p" by auto
    with old[of m] p(1) show False by simp
  qed
  have f: "hw_maps hw' = (p, handle b, size_t (idx * ESP_HIMEM_BLKSZ)) # hw_maps hw"
    "hw_next hw' = nx" "hw_regions hw' = hw_regions hw"
    unfolding hw' by simp_all
  have lt: "\<And>x. x < hw_next hw \<Longrightarrow> x < nx" using p by simp
  have "\<forall>m\<in>set (hw_maps hw). 0 < fst m \<and> fst m < nx \<and> 0 < fst (snd m) \<and> fst (snd m) < nx"
    using old lt by blast
  moreover have "\<forall>r\<in>set (hw_regions hw). 0 < fst r \<and> fst r < nx"
    using oldr lt by blast
  moreover have "0 < nx" "handle b < nx" using p hb by simp_all
  ultimately show "hw_inv hw'"
    unfolding hw_inv_def list_all_iff f using p p0 hb d fresh by simp
  from bi mp have lv: "filter (\<lambda>m. fst (snd m) = handle b) (hw_maps hw) = []"
    by (simp add: blk_inv_def live_mappings_def)
  show "blk_inv hw' (b\<lparr>range_h := rg, mapped_ptr := p, current_mapped_block := idx\<rparr>)"
    using bi p0 p(3) fit h lv unfolding hw' by (simp add: blk_inv_def live_mappings_def)
  show "hw_frame (handle b) hw hw'"
    using p unfolding hw' by (simp add: hw_frame_def)
qed

lemma ensure_block_mapped_spec:
  assumes "hw_inv hw" "blk_inv hw b"
  shows "case ensure_block_mapped b hw idx of (b', hw', ok) \<Rightarrow>
           hw_inv hw' \<and> blk_inv hw' b' \<and> handle b' = handle b \<and> size_b b' = size_b b
           \<and> hw_ram hw' = hw_ram hw \<and> hw_frame (handle b) hw hw'
           \<and> hw_fault hw' = hw_fault hw
           \<and> (ok \<longrightarrow> current_mapped_block b' = idx)
           \<and> (\<not> ok \<longrightarrow> mapped_ptr b' = 0 \<and> current_mapped_block b' = SIZE_MAX)
           \<and> ((\<forall>n. hw_map_ok hw n) \<and> handle b \<noteq> 0
                \<and> size_t (idx * ESP_HIMEM_BLKSZ) + ESP_HIMEM_BLKSZ \<le> size_b b \<longrightarrow> ok)"
proof (cases "idx = current_mapped_block b")
  case True
  then show ?thesis using assms by (simp add: ensure_block_mapped_def hw_frame_def)
next
  case False
  obtain b1 hw1 where u: "unmap b hw = (b1, hw1)" by (cases "unmap b hw")
  from unmap_spec[OF assms] u
  have i1: "hw_inv hw1" and bi1: "blk_inv hw1 b1" and mp: "mapped_ptr b1 = 0"
    and h1: "handle b1 = handle b" and s1: "size_b b1 = size_b b"
    and r1: "hw_ram hw1 = hw_ram hw" and f1: "hw_frame (handle b) hw hw1"
    and fl1: "hw_fault hw1 = hw_fault hw"
    by simp_all
  from bi1 mp have rg0: "range_h b1 = 0" and cur: "current_mapped_block b1 = SIZE_MAX"
    by (simp_all add: blk_inv_def)
  have b1eq: "b1\<lparr>range_h := 0\<rparr> = b1" using rg0 by simp
  have mo: "hw_map_ok hw1 = hw_map_ok hw" using f1 by (simp add: hw_frame_def)
  let ?off = "size_t (idx * ESP_HIMEM_BLKSZ)"
  let ?c = "hw_map_calls hw1"
  show ?thesis
  proof (cases "hw_map_ok hw1 ?c")
    case no_range: False
    let ?hw2 = "hw1\<lparr>hw_map_calls := ?c + 1, hw_log := hw_log hw1 @ [Ev_alloc_map_range None]\<rparr>"
    have res: "ensure_block_mapped b hw idx = (b1, ?hw2, False)"
      unfolding ensure_block_mapped_def unmap_if unfolding u using False no_range
      by (simp add: esp_himem_alloc_map_range_def)
    have "hw_inv ?hw2" by (rule hw_inv_mono[OF i1]) simp_all
    moreover have "blk_inv ?hw2 b1" by (rule blk_inv_cong[OF bi1]) simp_all
    moreover have "hw_frame (handle b) hw ?hw2"
      by (rule hw_frame_trans[OF f1]) (simp add: hw_frame_def)
    ultimately show ?thesis
      using h1 s1 r1 fl1 mp cur no_range mo by (auto simp: res)
  next
    case range_ok: True
    let ?rg = "hw_next hw1"
    let ?hw2 = "hw1\<lparr>hw_next := hw_next hw1 + 1, hw_map_calls := ?c + 1,
                     hw_log := hw_log hw1 @ [Ev_alloc_map_range (Some ?rg)]\<rparr>"
    have ar: "esp_himem_alloc_map_range hw1 = (?hw2, Some ?rg)"
      using range_ok by (simp add: esp_himem_alloc_map_range_def)
    have rgpos: "?rg \<noteq> 0" using i1 by (simp add: hw_inv_def)
    show ?thesis
    proof (cases "hw_map_ok hw1 (?c + 1) \<and> block_in_region hw1 (handle b) ?off")
      case no_map: False
      let ?hw3 = "?hw2\<lparr>hw_map_calls := ?c + 2,
                       hw_log := hw_log ?hw2 @ [Ev_map (handle b) ?rg ?off None]\<rparr>"
      let ?hw4 = "esp_himem_free_map_range ?hw3 ?rg"
      have mr: "esp_himem_map ?hw2 (handle b) ?rg ?off = (?hw3, None)"
        using no_map by (simp add: esp_himem_map_def block_in_region_def)
      have res: "ensure_block_mapped b hw idx = (b1, ?hw4, False)"
        unfolding ensure_block_mapped_def unmap_if unfolding u using False
        by (simp add: ar mr h1 b1eq del: One_nat_def)
      have "hw_inv ?hw4"
        by (rule hw_inv_mono[OF i1]) (simp_all add: esp_himem_free_map_range_def)
      moreover have "blk_inv ?hw4 b1"
        by (rule blk_inv_cong[OF bi1]) (simp_all add: esp_himem_free_map_range_def)
      moreover have "hw_frame (handle b) hw ?hw4"
        by (rule hw_frame_trans[OF f1]) (simp add: hw_frame_def esp_himem_free_map_range_def)
      moreover have "hw_ram ?hw4 = hw_ram hw" "hw_fault ?hw4 = hw_fault hw"
        using r1 fl1 by (simp_all add: esp_himem_free_map_range_def)
      moreover have "\<not> ((\<forall>n. hw_map_ok hw n) \<and> handle b \<noteq> 0 \<and> ?off + ESP_HIMEM_BLKSZ \<le> size_b b)"
      proof
        assume a: "(\<forall>n. hw_map_ok hw n) \<and> handle b \<noteq> 0 \<and> ?off + ESP_HIMEM_BLKSZ \<le> size_b b"
        then have "map_of (hw_regions hw1) (handle b) = Some (size_b b)"
          using bi1 h1 s1 by (simp add: blk_inv_def)
        with a have "block_in_region hw1 (handle b) ?off" by (simp add: block_in_region_def)
        with a no_map mo show False by simp
      qed
      ultimately show ?thesis
        using h1 s1 mp cur by (simp add: res)
    next
      case map_ok: True
      let ?p = "hw_next hw1 + 1"
      let ?hw3 = "?hw2\<lparr>hw_maps := (?p, handle b, ?off) # hw_maps hw1,
                       hw_next := hw_next hw1 + 2, hw_map_calls := ?c + 2,
                       hw_log := hw_log ?hw2 @ [Ev_map (handle b) ?rg ?off (Some ?p)]\<rparr>"
      let ?b3 = "b1\<lparr>range_h := ?rg, mapped_ptr := ?p, current_mapped_block := idx\<rparr>"
      have mr: "esp_himem_map ?hw2 (handle b) ?rg ?off = (?hw3, Some ?p)"
        using map_ok by (simp add: esp_himem_map_def block_in_region_def)
      have res: "ensure_block_mapped b hw idx = (?b3, ?hw3, True)"
        unfolding ensure_block_mapped_def unmap_if unfolding u using False
        by (simp add: ar mr h1 del: One_nat_def)
      have hnz: "handle b1 \<noteq> 0"
        using map_ok map_of_regions_null[OF i1] h1
        by (cases "handle b = 0") (auto simp: block_in_region_def)
      have fit: "?off + ESP_HIMEM_BLKSZ \<le> size_b b1"
        using map_ok bi1 hnz h1 by (auto simp: block_in_region_def blk_inv_def)
      have eq3: "?hw3 = hw1\<lparr>hw_maps := (?p, handle b1, ?off) # hw_maps hw1,
                        hw_next := hw_next hw1 + 2, hw_map_calls := ?c + 2,
                        hw_log := hw_log ?hw2 @ [Ev_map (handle b) ?rg ?off (Some ?p)]\<rparr>"
        by (simp add: h1)
      note ow = open_window[OF i1 bi1 mp eq3 _ _ rgpos fit hnz]
      have "hw_inv ?hw3" by (rule ow(1)) simp_all
      moreover have "blk_inv ?hw3 ?b3" by (rule ow(2)) simp_all
      moreover have "hw_frame (handle b) hw ?hw3"
        by (rule hw_frame_trans[OF f1]) (use ow(3) h1 in simp)
      moreover have "hw_ram ?hw3 = hw_ram hw" "hw_fault ?hw3 = hw_fault hw"
        using r1 fl1 by simp_all
      ultimately show ?thesis
        using h1 s1 by (simp add: res)
    qed
  qed
qed

lemma live_lookup:
  assumes i: "hw_inv hw" and bi: "blk_inv hw b" and mp: "mapped_ptr b \<noteq> 0"
  shows "map_of (hw_maps hw) (mapped_ptr b)
         = Some (handle b, size_t (current_mapped_block b * ESP_HIMEM_BLKSZ))"
proof -
  let ?e = "(mapped_ptr b, handle b, size_t (current_mapped_block b * ESP_HIMEM_BLKSZ))"
  from bi mp have "filter (\<lambda>m. fst (snd m) = handle b) (hw_maps hw) = [?e]"
    by (simp add: blk_inv_def live_mappings_def)
  then have "?e \<in> set (filter (\<lambda>m. fst (snd m) = handle b) (hw_maps hw))" by simp
  then have "?e \<in> set (hw_maps hw)" by simp
  moreover from i have "distinct (map fst (hw_maps hw))" by (simp add: hw_inv_def)
  ultimately show ?thesis by (rule_tac map_of_is_SomeI)
qed

lemma window_store_spec:
  assumes "hw_inv hw" "blk_inv hw b" "mapped_ptr b \<noteq> 0"
  shows "window_store hw (mapped_ptr b) bo bs =
         hw\<lparr>hw_ram := (hw_ram hw)(handle b :=
            (\<lambda>a. if size_t (current_mapped_block b * ESP_HIMEM_BLKSZ) + bo \<le> a
                     \<and> a < size_t (current_mapped_block b * ESP_HIMEM_BLKSZ) + bo + length bs
                  then bs ! (a - (size_t (current_mapped_block b * ESP_HIMEM_BLKSZ) + bo))
                  else hw_ram hw (handle b) a))\<rparr>"
  by (simp add: window_store_def live_lookup[OF assms])

lemma window_load_spec:
  assumes "hw_inv hw" "blk_inv hw b" "mapped_ptr b \<noteq> 0"
  shows "window_load hw (mapped_ptr b) bo n =
         (hw, region_bytes hw (handle b)
                (size_t (current_mapped_block b * ESP_HIMEM_BLKSZ) + bo) n)"
  by (simp add: window_load_def live_lookup[OF assms] region_bytes_def)

lemma ram_update_keeps:
  assumes "hw_inv hw" "blk_inv hw b"
  shows "hw_inv (hw\<lparr>hw_ram := r\<rparr>)" "blk_inv (hw\<lparr>hw_ram := r\<rparr>) b"
    "(\<And>h2. h2 \<noteq> h \<Longrightarrow> r h2 = hw_ram hw h2) \<Longrightarrow> hw_frame h hw (hw\<lparr>hw_ram := r\<rparr>)"
proof -
  show "hw_inv (hw\<lparr>hw_ram := r\<rparr>)" by (rule hw_inv_mono[OF assms(1)]) simp_all
  show "blk_inv (hw\<lparr>hw_ram := r\<rparr>) b" by (rule blk_inv_cong[OF assms(2)]) simp_all
  show "(\<And>h2. h2 \<noteq> h \<Longrightarrow> r h2 = hw_ram hw h2) \<Longrightarrow> hw_frame h hw (hw\<lparr>hw_ram := r\<rparr>)"
    by (simp add: hw_frame_def)
qed

text \<open>a block that starts inside an allocation of whole blocks lies inside it\<close>
lemma block_fits:
  assumes "ESP_HIMEM_BLKSZ dvd n" "bi * ESP_HIMEM_BLKSZ < n"
  shows "bi * ESP_HIMEM_BLKSZ + ESP_HIMEM_BLKSZ \<le> n"
proof -
  from assms(1) obtain k where k: "n = ESP_HIMEM_BLKSZ * k" by (auto simp: dvd_def)
  have B: "0 < ESP_HIMEM_BLKSZ" by (simp add: ESP_HIMEM_BLKSZ_def)
  from assms(2) k B have "bi < k" by (simp add: mult.commute)
  then have "Suc bi \<le> k" by simp
  then have "Suc bi * ESP_HIMEM_BLKSZ \<le> k * ESP_HIMEM_BLKSZ" by (rule mult_le_mono1)
  then show ?thesis using k by (simp add: mult.commute)
qed

lemma size_t_id: "n \<le> SIZE_MAX \<Longrightarrow> size_t n = n"
  by (simp add: size_t_def SIZE_MAX_def)

lemma sub_size_t_id:
  assumes "b \<le> a" "a \<le> SIZE_MAX"
  shows "sub_size_t a b = a - b"
proof -
  from assms(1) have e: "a + 4294967296 - b = (a - b) + 4294967296" by arith
  from assms(2) have lt: "a - b < 4294967296" by (simp add: SIZE_MAX_def)
  show ?thesis unfolding sub_size_t_def e using lt by simp
qed

text \<open>the situation at the head of a round of the loops of read and write\<close>
lemma loop_round:
  assumes ok: "\<forall>n. hw_map_ok hw n" and i: "hw_inv hw" and bi: "blk_inv hw b"
    and h: "handle b \<noteq> 0"
    and pos: "idx * ESP_HIMEM_BLKSZ + bo = offset + done" and bo: "bo < ESP_HIMEM_BLKSZ"
    and fit: "offset + len \<le> size_b b" and lt: "done < len"
  obtains b1 hw1 where "ensure_block_mapped b hw idx = (b1, hw1, True)"
    "hw_inv hw1" "blk_inv hw1 b1" "handle b1 = handle b" "size_b b1 = size_b b"
    "hw_ram hw1 = hw_ram hw" "hw_frame (handle b) hw hw1" "hw_fault hw1 = hw_fault hw"
    "current_mapped_block b1 = idx" "mapped_ptr b1 \<noteq> 0"
    "size_t (idx * ESP_HIMEM_BLKSZ) = idx * ESP_HIMEM_BLKSZ"
    "size_t (idx + 1) = idx + 1"
    "sub_size_t ESP_HIMEM_BLKSZ bo = ESP_HIMEM_BLKSZ - bo"
    "idx * ESP_HIMEM_BLKSZ + ESP_HIMEM_BLKSZ \<le> size_b b"
proof -
  from bi h have sz: "size_b b \<le> SIZE_MAX" and dv: "ESP_HIMEM_BLKSZ dvd size_b b"
    by (simp_all add: blk_inv_def)
  have "idx * ESP_HIMEM_BLKSZ < size_b b" using pos fit lt by linarith
  from block_fits[OF dv this] have inb: "idx * ESP_HIMEM_BLKSZ + ESP_HIMEM_BLKSZ \<le> size_b b" .
  have st: "size_t (idx * ESP_HIMEM_BLKSZ) = idx * ESP_HIMEM_BLKSZ"
    using inb sz by (intro size_t_id) linarith
  have idx: "idx + 1 \<le> SIZE_MAX"
    using inb sz by (simp add: ESP_HIMEM_BLKSZ_def SIZE_MAX_def)
  have st1: "size_t (idx + 1) = idx + 1" by (rule size_t_id[OF idx])
  have sub: "sub_size_t ESP_HIMEM_BLKSZ bo = ESP_HIMEM_BLKSZ - bo"
    using bo by (intro sub_size_t_id) (simp_all add: ESP_HIMEM_BLKSZ_def SIZE_MAX_def)
  obtain b1 hw1 ok1 where e: "ensure_block_mapped b hw idx = (b1, hw1, ok1)"
    by (cases "ensure_block_mapped b hw idx")
  from ensure_block_mapped_spec[OF i bi, of idx] e ok h inb st
  have p: "hw_inv hw1" "blk_inv hw1 b1" "handle b1 = handle b" "size_b b1 = size_b b"
    "hw_ram hw1 = hw_ram hw" "hw_frame (handle b) hw hw1" "hw_fault hw1 = hw_fault hw"
    "current_mapped_block b1 = idx" "ok1"
    by simp_all
  have mp: "mapped_ptr b1 \<noteq> 0"
  proof
    assume "mapped_ptr b1 = 0"
    with p(2) have "current_mapped_block b1 = SIZE_MAX" by (simp add: blk_inv_def)
    with p(8) idx show False by simp
  qed
  show ?thesis
    using that[OF _ p(1-8) mp st st1 sub inb] e p(9) by simp
qed

lemma write_loop_ok:
  assumes "\<forall>n. hw_map_ok hw n" "hw_inv hw" "blk_inv hw b" "handle b \<noteq> 0"
    and "bw < len \<Longrightarrow> bi * ESP_HIMEM_BLKSZ + bo = offset + bw \<and> bo < ESP_HIMEM_BLKSZ"
    and "offset + len \<le> size_b b" "bw \<le> len" "len \<le> length src"
  shows "\<exists>b' hw'. write_loop b hw src len bi bo bw = (b', hw', len)
           \<and> hw_inv hw' \<and> blk_inv hw' b' \<and> handle b' = handle b \<and> size_b b' = size_b b
           \<and> hw_frame (handle b) hw hw' \<and> hw_fault hw' = hw_fault hw
           \<and> hw_ram hw' (handle b) =
               (\<lambda>a. if offset + bw \<le> a \<and> a < offset + len then src ! (a - offset)
                    else hw_ram hw (handle b) a)"
  using assms
proof (induction "len - bw" arbitrary: b hw bi bo bw rule: less_induct)
  case less
  show ?case
  proof (cases "bw < len")
    case False
    with less.prems have "bw = len" by simp
    then show ?thesis
      using less.prems by (subst write_loop.simps) (auto simp: hw_frame_refl fun_eq_iff)
  next
    case True
    with less.prems have pos: "bi * ESP_HIMEM_BLKSZ + bo = offset + bw"
      and bo: "bo < ESP_HIMEM_BLKSZ" by simp_all
    from loop_round[OF less.prems(1-4) pos bo less.prems(6) True]
    obtain b1 hw1 where e: "ensure_block_mapped b hw bi = (b1, hw1, True)"
      and i1: "hw_inv hw1" and bi1: "blk_inv hw1 b1" and h1: "handle b1 = handle b"
      and s1: "size_b b1 = size_b b" and r1: "hw_ram hw1 = hw_ram hw"
      and f1: "hw_frame (handle b) hw hw1" and fl1: "hw_fault hw1 = hw_fault hw"
      and c1: "current_mapped_block b1 = bi" and mp: "mapped_ptr b1 \<noteq> 0"
      and st: "size_t (bi * ESP_HIMEM_BLKSZ) = bi * ESP_HIMEM_BLKSZ"
      and st1: "size_t (bi + 1) = bi + 1"
      and sub: "sub_size_t ESP_HIMEM_BLKSZ bo = ESP_HIMEM_BLKSZ - bo"
      by blast
    define tw where "tw = min (ESP_HIMEM_BLKSZ - bo) (len - bw)"
    define bs where "bs = take tw (drop bw src)"
    define r2 where "r2 = (hw_ram hw1)(handle b :=
        (\<lambda>a. if offset + bw \<le> a \<and> a < offset + bw + tw then src ! (a - offset)
             else hw_ram hw (handle b) a))"
    define hw2 where "hw2 = hw1\<lparr>hw_ram := r2\<rparr>"
    have tw0: "0 < tw" "bw + tw \<le> len" using True bo by (simp_all add: tw_def)
    have lbs: "length bs = tw" using tw0 less.prems(8) by (simp add: bs_def)
    have nth: "\<And>a. offset + bw \<le> a \<Longrightarrow> a < offset + bw + tw
                 \<Longrightarrow> bs ! (a - (offset + bw)) = src ! (a - offset)"
    proof -
      fix a assume a: "offset + bw \<le> a" "a < offset + bw + tw"
      then have "bs ! (a - (offset + bw)) = drop bw src ! (a - (offset + bw))"
        by (simp add: bs_def)
      also have "\<dots> = src ! (bw + (a - (offset + bw)))"
        using less.prems(8) tw0 by (intro nth_drop) simp
      also have "bw + (a - (offset + bw)) = a - offset" using a by simp
      finally show "bs ! (a - (offset + bw)) = src ! (a - offset)" .
    qed
    have ws: "window_store hw1 (mapped_ptr b1) bo bs = hw2"
      unfolding window_store_spec[OF i1 bi1 mp] hw2_def r2_def
      by (auto simp: c1 st pos lbs h1 r1 nth fun_eq_iff)
    have step: "write_loop b hw src len bi bo bw
                = write_loop b1 hw2 src len (bi + 1) 0 (bw + tw)"
      by (subst write_loop.simps)
         (simp add: True e sub st1 Let_def tw_def[symmetric] bs_def[symmetric] ws
            del: One_nat_def)
    have i2: "hw_inv hw2" and bi2: "blk_inv hw2 b1"
      unfolding hw2_def using ram_update_keeps[OF i1 bi1] by simp_all
    have f12: "hw_frame (handle b) hw1 hw2"
      unfolding hw2_def by (rule ram_update_keeps(3)[OF i1 bi1]) (simp add: r2_def)
    have ok2: "\<forall>n. hw_map_ok hw2 n"
      using less.prems(1) f1 by (simp add: hw2_def hw_frame_def)
    have pos2: "bw + tw < len \<Longrightarrow>
        (bi + 1) * ESP_HIMEM_BLKSZ + 0 = offset + (bw + tw) \<and> 0 < ESP_HIMEM_BLKSZ"
      using pos bo by (simp add: tw_def min_def ESP_HIMEM_BLKSZ_def split: if_splits)
    have "len - (bw + tw) < len - bw" using tw0 True by simp
    moreover have hb1: "handle b1 \<noteq> 0" and fit1: "offset + len \<le> size_b b1"
      using h1 s1 less.prems(4,6) by simp_all
    ultimately have "\<exists>b' hw'. write_loop b1 hw2 src len (bi + 1) 0 (bw + tw) = (b', hw', len)
           \<and> hw_inv hw' \<and> blk_inv hw' b' \<and> handle b' = handle b1 \<and> size_b b' = size_b b1
           \<and> hw_frame (handle b1) hw2 hw' \<and> hw_fault hw' = hw_fault hw2
           \<and> hw_ram hw' (handle b1) =
               (\<lambda>a. if offset + (bw + tw) \<le> a \<and> a < offset + len then src ! (a - offset)
                    else hw_ram hw2 (handle b1) a)"
      using ok2 i2 bi2 pos2 tw0(2) less.prems(8) by (intro less.hyps) simp_all
    then obtain b' hw' where w: "write_loop b1 hw2 src len (bi + 1) 0 (bw + tw) = (b', hw', len)"
      and i': "hw_inv hw'" and bi': "blk_inv hw' b'" and h': "handle b' = handle b"
      and s': "size_b b' = size_b b" and f': "hw_frame (handle b) hw2 hw'"
      and fl': "hw_fault hw' = hw_fault hw2"
      and r': "hw_ram hw' (handle b) =
               (\<lambda>a. if offset + (bw + tw) \<le> a \<and> a < offset + len then src ! (a - offset)
                    else hw_ram hw2 (handle b) a)"
      unfolding h1 s1 by blast
    have fr: "hw_frame (handle b) hw hw'"
      by (rule hw_frame_trans[OF hw_frame_trans[OF f1 f12] f'])
    have ram: "hw_ram hw' (handle b) =
               (\<lambda>a. if offset + bw \<le> a \<and> a < offset + len then src ! (a - offset)
                    else hw_ram hw (handle b) a)"
      unfolding r' using tw0 by (auto simp: hw2_def r2_def fun_eq_iff)
    show ?thesis
      using step w i' bi' h' s' fr fl' ram fl1 by (simp add: hw2_def)
  qed
qed

lemma region_bytes_length [simp]: "length (region_bytes hw h off n) = n"
  by (simp add: region_bytes_def)

lemma region_bytes_nth [simp]: "k < n \<Longrightarrow> region_bytes hw h off n ! k = hw_ram hw h (off + k)"
  by (simp add: region_bytes_def)

lemma region_bytes_split:
  "region_bytes hw h off (n + m) = region_bytes hw h off n @ region_bytes hw h (off + n) m"
  by (rule nth_equalityI) (auto simp: nth_append)

lemma region_bytes_ram_h:
  "hw_ram hw' h = hw_ram hw h \<Longrightarrow> region_bytes hw' h off n = region_bytes hw h off n"
  by (simp add: region_bytes_def)

lemma region_bytes_ram:
  "hw_ram hw' = hw_ram hw \<Longrightarrow> region_bytes hw' h off n = region_bytes hw h off n"
  by (simp add: region_bytes_def)

lemma read_loop_ok:
  assumes "\<forall>n. hw_map_ok hw n" "hw_inv hw" "blk_inv hw b" "handle b \<noteq> 0"
    and "br < len \<Longrightarrow> bi * ESP_HIMEM_BLKSZ + bo = offset + br \<and> bo < ESP_HIMEM_BLKSZ"
    and "offset + len \<le> size_b b" "br \<le> len" "len \<le> length dest"
  shows "\<exists>b' hw'. read_loop b hw dest len bi bo br =
             (b', hw',
              take br dest @ region_bytes hw (handle b) (offset + br) (len - br) @ drop len dest,
              len)
           \<and> hw_inv hw' \<and> blk_inv hw' b' \<and> handle b' = handle b \<and> size_b b' = size_b b
           \<and> hw_frame (handle b) hw hw' \<and> hw_fault hw' = hw_fault hw
           \<and> hw_ram hw' = hw_ram hw"
  using assms
proof (induction "len - br" arbitrary: b hw bi bo br dest rule: less_induct)
  case less
  show ?case
  proof (cases "br < len")
    case False
    with less.prems have "br = len" by simp
    then show ?thesis
      using less.prems by (subst read_loop.simps) (auto simp: hw_frame_refl region_bytes_def)
  next
    case True
    with less.prems have pos: "bi * ESP_HIMEM_BLKSZ + bo = offset + br"
      and bo: "bo < ESP_HIMEM_BLKSZ" by simp_all
    from loop_round[OF less.prems(1-4) pos bo less.prems(6) True]
    obtain b1 hw1 where e: "ensure_block_mapped b hw bi = (b1, hw1, True)"
      and i1: "hw_inv hw1" and bi1: "blk_inv hw1 b1" and h1: "handle b1 = handle b"
      and s1: "size_b b1 = size_b b" and r1: "hw_ram hw1 = hw_ram hw"
      and f1: "hw_frame (handle b) hw hw1" and fl1: "hw_fault hw1 = hw_fault hw"
      and c1: "current_mapped_block b1 = bi" and mp: "mapped_ptr b1 \<noteq> 0"
      and st: "size_t (bi * ESP_HIMEM_BLKSZ) = bi * ESP_HIMEM_BLKSZ"
      and st1: "size_t (bi + 1) = bi + 1"
      and sub: "sub_size_t ESP_HIMEM_BLKSZ bo = ESP_HIMEM_BLKSZ - bo"
      by blast
    define tr where "tr = min (ESP_HIMEM_BLKSZ - bo) (len - br)"
    define bs where "bs = region_bytes hw (handle b) (offset + br) tr"
    define dest1 where "dest1 = take br dest @ bs @ drop (br + tr) dest"
    have tr0: "0 < tr" "br + tr \<le> len" using True bo by (simp_all add: tr_def)
    have wl: "window_load hw1 (mapped_ptr b1) bo tr = (hw1, bs)"
      unfolding window_load_spec[OF i1 bi1 mp] bs_def
      by (simp add: c1 st pos h1 region_bytes_ram[OF r1])
    have step: "read_loop b hw dest len bi bo br
                = read_loop b1 hw1 dest1 len (bi + 1) 0 (br + tr)"
      by (subst read_loop.simps)
         (simp add: True e sub st1 Let_def tr_def[symmetric] wl dest1_def
            del: One_nat_def)
    have ok1: "\<forall>n. hw_map_ok hw1 n"
      using less.prems(1) f1 by (simp add: hw_frame_def)
    have pos2: "br + tr < len \<Longrightarrow>
        (bi + 1) * ESP_HIMEM_BLKSZ + 0 = offset + (br + tr) \<and> 0 < ESP_HIMEM_BLKSZ"
      using pos bo by (simp add: tr_def min_def ESP_HIMEM_BLKSZ_def split: if_splits)
    have ld1: "length dest1 = length dest" "len \<le> length dest1"
      using tr0 less.prems(8) by (simp_all add: dest1_def bs_def)
    have "len - (br + tr) < len - br" using tr0 True by simp
    moreover have hb1: "handle b1 \<noteq> 0" and fit1: "offset + len \<le> size_b b1"
      using h1 s1 less.prems(4,6) by simp_all
    ultimately have "\<exists>b' hw'. read_loop b1 hw1 dest1 len (bi + 1) 0 (br + tr) =
             (b', hw',
              take (br + tr) dest1
                @ region_bytes hw1 (handle b1) (offset + (br + tr)) (len - (br + tr))
                @ drop len dest1,
              len)
           \<and> hw_inv hw' \<and> blk_inv hw' b' \<and> handle b' = handle b1 \<and> size_b b' = size_b b1
           \<and> hw_frame (handle b1) hw1 hw' \<and> hw_fault hw' = hw_fault hw1
           \<and> hw_ram hw' = hw_ram hw1"
      using ok1 i1 bi1 pos2 tr0(2) ld1(2) by (intro less.hyps) simp_all
    then obtain b' hw' where
      w: "read_loop b1 hw1 dest1 len (bi + 1) 0 (br + tr) =
             (b', hw',
              take (br + tr) dest1
                @ region_bytes hw1 (handle b) (offset + (br + tr)) (len - (br + tr))
                @ drop len dest1,
              len)"
      and i': "hw_inv hw'" and bi': "blk_inv hw' b'" and h': "handle b' = handle b"
      and s': "size_b b' = size_b b" and f': "hw_frame (handle b) hw1 hw'"
      and fl': "hw_fault hw' = hw_fault hw1" and r': "hw_ram hw' = hw_ram hw1"
      unfolding h1 s1 by blast
    have t1: "take (br + tr) dest1 = take br dest @ bs"
      using less.prems(7,8) by (simp add: dest1_def bs_def)
    have d1: "drop len dest1 = drop len dest"
      using less.prems(7,8) tr0 by (simp add: dest1_def bs_def)
    have "len - br = tr + (len - (br + tr))" using tr0 by simp
    then have rb: "region_bytes hw (handle b) (offset + br) (len - br)
        = bs @ region_bytes hw1 (handle b) (offset + (br + tr)) (len - (br + tr))"
      by (simp add: region_bytes_split bs_def region_bytes_ram[OF r1]
            add.assoc)
    have fr: "hw_frame (handle b) hw hw'"
      by (rule hw_frame_trans[OF f1 f'])
    show ?thesis
      using step w i' bi' h' s' fr fl' fl1 r' r1 by (simp add: t1 d1 rb)
  qed
qed

lemma map_of_maps_null: "hw_inv hw \<Longrightarrow> map_of (hw_maps hw) 0 = None"
  by (force simp: hw_inv_def list_all_iff map_of_eq_None_iff)

lemma window_store_keeps:
  assumes i: "hw_inv hw" and bi: "blk_inv hw b"
  shows "hw_inv (window_store hw (mapped_ptr b) bo bs)"
    and "blk_inv (window_store hw (mapped_ptr b) bo bs) b"
    and "hw_frame (handle b) hw (window_store hw (mapped_ptr b) bo bs)"
proof -
  have "hw_inv (window_store hw (mapped_ptr b) bo bs)
        \<and> blk_inv (window_store hw (mapped_ptr b) bo bs) b
        \<and> hw_frame (handle b) hw (window_store hw (mapped_ptr b) bo bs)"
  proof (cases "mapped_ptr b = 0")
    case True
    have e: "window_store hw (mapped_ptr b) bo bs = hw\<lparr>hw_fault := True\<rparr>"
      by (simp add: window_store_def True map_of_maps_null[OF i])
    show ?thesis unfolding e
      by (intro conjI hw_inv_mono[OF i] blk_inv_cong[OF bi] hw_frame_refl_on) simp_all
  next
    case False
    show ?thesis unfolding window_store_spec[OF i bi False]
      using ram_update_keeps[OF i bi] by simp
  qed
  then show "hw_inv (window_store hw (mapped_ptr b) bo bs)"
    and "blk_inv (window_store hw (mapped_ptr b) bo bs) b"
    and "hw_frame (handle b) hw (window_store hw (mapped_ptr b) bo bs)" by simp_all
qed

lemma window_load_keeps:
  assumes i: "hw_inv hw" and bi: "blk_inv hw b"
  shows "hw_inv (fst (window_load hw p bo n))
         \<and> blk_inv (fst (window_load hw p bo n)) b
         \<and> hw_frame h hw (fst (window_load hw p bo n))
         \<and> hw_ram (fst (window_load hw p bo n)) = hw_ram hw"
proof -
  have e: "fst (window_load hw p bo n) = hw \<or> fst (window_load hw p bo n) = hw\<lparr>hw_fault := True\<rparr>"
    by (simp add: window_load_def split: option.splits prod.splits)
  have a: "hw_inv (hw\<lparr>hw_fault := True\<rparr>)" by (rule hw_inv_mono[OF i]) simp_all
  have b: "blk_inv (hw\<lparr>hw_fault := True\<rparr>) b" by (rule blk_inv_cong[OF bi]) simp_all
  have c: "hw_frame h hw (hw\<lparr>hw_fault := True\<rparr>)" by (rule hw_frame_refl_on) simp_all
  from e a b c i bi show ?thesis by (auto simp: hw_frame_refl)
qed

lemma write_loop_keeps:
  "hw_inv hw \<Longrightarrow> blk_inv hw b \<Longrightarrow>
   (case write_loop b hw src len bi bo bw of (b', hw', n) \<Rightarrow>
      hw_inv hw' \<and> blk_inv hw' b' \<and> handle b' = handle b \<and> size_b b' = size_b b
      \<and> hw_frame (handle b) hw hw')"
proof (induction b hw src len bi bo bw rule: write_loop.induct)
  case (1 b hw src len bi bo bw)
  show ?case
  proof (cases "bw < len")
    case False
    then show ?thesis using "1.prems"
      by (subst write_loop.simps) (simp add: hw_frame_refl)
  next
    case True
    obtain b1 hw1 ok1 where e: "ensure_block_mapped b hw bi = (b1, hw1, ok1)"
      by (cases "ensure_block_mapped b hw bi")
    from ensure_block_mapped_spec[OF "1.prems", of bi] e
    have i1: "hw_inv hw1" and bi1: "blk_inv hw1 b1" and h1: "handle b1 = handle b"
      and s1: "size_b b1 = size_b b" and f1: "hw_frame (handle b) hw hw1"
      by simp_all
    show ?thesis
    proof (cases ok1)
      case False
      then show ?thesis using True e i1 bi1 h1 s1 f1
        by (subst write_loop.simps) simp
    next
      case ok: True
      define tw where "tw = min (sub_size_t ESP_HIMEM_BLKSZ bo) (len - bw)"
      define hw2 where "hw2 = window_store hw1 (mapped_ptr b1) bo (take tw (drop bw src))"
      note ws = window_store_keeps[OF i1 bi1, of bo "take tw (drop bw src)", folded hw2_def]
      have step: "write_loop b hw src len bi bo bw
                  = write_loop b1 hw2 src len (size_t (bi + 1)) 0 (bw + tw)"
        by (subst write_loop.simps) (simp add: True e ok Let_def tw_def hw2_def)
      have IH: "case write_loop b1 hw2 src len (size_t (bi + 1)) 0 (bw + tw) of
                  (b', hw', n) \<Rightarrow>
                    hw_inv hw' \<and> blk_inv hw' b' \<and> handle b' = handle b1
                    \<and> size_b b' = size_b b1 \<and> hw_frame (handle b1) hw2 hw'"
        by (rule "1.IH"[OF True e[symmetric] refl _ refl tw_def hw2_def ws(1,2)])
           (simp add: ok)
      have f2: "hw_frame (handle b) hw hw2"
        using hw_frame_trans[OF f1] ws(3) h1 by simp
      show ?thesis unfolding step using IH h1 s1 f2
        by (auto intro: hw_frame_trans)
    qed
  qed
qed

lemma read_loop_keeps:
  "hw_inv hw \<Longrightarrow> blk_inv hw b \<Longrightarrow>
   (case read_loop b hw dest len bi bo br of (b', hw', dest', n) \<Rightarrow>
      hw_inv hw' \<and> blk_inv hw' b' \<and> handle b' = handle b \<and> size_b b' = size_b b
      \<and> hw_frame (handle b) hw hw' \<and> hw_ram hw' = hw_ram hw)"
proof (induction b hw dest len bi bo br rule: read_loop.induct)
  case (1 b hw dest len bi bo br)
  show ?case
  proof (cases "br < len")
    case False
    then show ?thesis using "1.prems"
      by (subst read_loop.simps) (simp add: hw_frame_refl)
  next
    case True
    obtain b1 hw1 ok1 where e: "ensure_block_mapped b hw bi = (b1, hw1, ok1)"
      by (cases "ensure_block_mapped b hw bi")
    from ensure_block_mapped_spec[OF "1.prems", of bi] e
    have i1: "hw_inv hw1" and bi1: "blk_inv hw1 b1" and h1: "handle b1 = handle b"
      and s1: "size_b b1 = size_b b" and f1: "hw_frame (handle b) hw hw1"
      and r1: "hw_ram hw1 = hw_ram hw"
      by simp_all
    show ?thesis
    proof (cases ok1)
      case False
      then show ?thesis using True e i1 bi1 h1 s1 f1 r1
        by (subst read_loop.simps) simp
    next
      case ok: True
      define tr where "tr = min (sub_size_t ESP_HIMEM_BLKSZ bo) (len - br)"
      obtain hw2 bs where wl: "window_load hw1 (mapped_ptr b1) bo tr = (hw2, bs)"
        by (cases "window_load hw1 (mapped_ptr b1) bo tr")
      define dest1 where "dest1 = take br dest @ bs @ drop (br + tr) dest"
      from window_load_keeps[OF i1 bi1, of "mapped_ptr b1" bo tr "handle b"] wl
      have ws: "hw_inv hw2" "blk_inv hw2 b1" "hw_frame (handle b) hw1 hw2"
        "hw_ram hw2 = hw_ram hw1" by simp_all
      have step: "read_loop b hw dest len bi bo br
                  = read_loop b1 hw2 dest1 len (size_t (bi + 1)) 0 (br + tr)"
        by (subst read_loop.simps) (simp add: True e ok Let_def tr_def wl[unfolded tr_def] dest1_def)
      have IH: "case read_loop b1 hw2 dest1 len (size_t (bi + 1)) 0 (br + tr) of
                  (b', hw', dest', n) \<Rightarrow>
                    hw_inv hw' \<and> blk_inv hw' b' \<and> handle b' = handle b1
                    \<and> size_b b' = size_b b1 \<and> hw_frame (handle b1) hw2 hw'
                    \<and> hw_ram hw' = hw_ram hw2"
        by (rule "1.IH"[OF True e[symmetric] refl _ refl tr_def refl wl[symmetric] dest1_def ws(1,2)])
           (simp add: ok)
      have f2: "hw_frame (handle b) hw hw2"
        using hw_frame_trans[OF f1 ws(3)] .
      show ?thesis unfolding step using IH h1 s1 f2 ws(4) r1
        by (auto intro: hw_frame_trans)
    qed
  qed
qed

lemma write_b_spec:
  assumes ok: "\<forall>n. hw_map_ok hw n" and i: "hw_inv hw" and bi: "blk_inv hw b"
    and src: "len \<le> length src"
  shows "\<exists>b' hw'. write_b b hw src offset len = (b', hw', clamp_len b offset len)
           \<and> hw_inv hw' \<and> blk_inv hw' b' \<and> handle b' = handle b \<and> size_b b' = size_b b
           \<and> hw_frame (handle b) hw hw' \<and> hw_fault hw' = hw_fault hw
           \<and> hw_ram hw' (handle b) =
               (\<lambda>a. if offset \<le> a \<and> a < offset + clamp_len b offset len
                    then src ! (a - offset) else hw_ram hw (handle b) a)"
proof (cases "handle b = 0 \<or> size_b b \<le> offset \<or> min len (size_b b - offset) = 0")
  case True
  then have c: "clamp_len b offset len = 0" by (auto simp: clamp_len_def)
  have "write_b b hw src offset len = (b, hw, 0)"
    using True by (auto simp: write_b_def)
  then show ?thesis using i bi by (auto simp: c hw_frame_refl fun_eq_iff)
next
  case False
  let ?n = "min len (size_b b - offset)"
  from False have c: "clamp_len b offset len = ?n" by (simp add: clamp_len_def)
  from False have w: "write_b b hw src offset len
      = write_loop b hw src ?n (offset div ESP_HIMEM_BLKSZ) (offset mod ESP_HIMEM_BLKSZ) 0"
    by (auto simp: write_b_def Let_def)
  have B: "0 < ESP_HIMEM_BLKSZ" by (simp add: ESP_HIMEM_BLKSZ_def)
  have "\<exists>b' hw'. write_loop b hw src ?n (offset div ESP_HIMEM_BLKSZ)
                     (offset mod ESP_HIMEM_BLKSZ) 0 = (b', hw', ?n)
           \<and> hw_inv hw' \<and> blk_inv hw' b' \<and> handle b' = handle b \<and> size_b b' = size_b b
           \<and> hw_frame (handle b) hw hw' \<and> hw_fault hw' = hw_fault hw
           \<and> hw_ram hw' (handle b) =
               (\<lambda>a. if offset + 0 \<le> a \<and> a < offset + ?n then src ! (a - offset)
                    else hw_ram hw (handle b) a)"
    using ok i bi False src B by (intro write_loop_ok) auto
  then show ?thesis unfolding w c by simp
qed

lemma read_spec:
  assumes ok: "\<forall>n. hw_map_ok hw n" and i: "hw_inv hw" and bi: "blk_inv hw b"
    and dst: "len \<le> length dest"
  shows "\<exists>b' hw'. read b hw dest offset len =
             (b', hw',
              region_bytes hw (handle b) offset (clamp_len b offset len)
                @ drop (clamp_len b offset len) dest,
              clamp_len b offset len)
           \<and> hw_inv hw' \<and> blk_inv hw' b' \<and> handle b' = handle b \<and> size_b b' = size_b b
           \<and> hw_frame (handle b) hw hw' \<and> hw_fault hw' = hw_fault hw
           \<and> hw_ram hw' = hw_ram hw"
proof (cases "handle b = 0 \<or> size_b b \<le> offset \<or> min len (size_b b - offset) = 0")
  case True
  then have c: "clamp_len b offset len = 0" by (auto simp: clamp_len_def)
  have "read b hw dest offset len = (b, hw, dest, 0)"
    using True by (auto simp: read_def)
  then show ?thesis using i bi by (simp add: c hw_frame_refl region_bytes_def)
next
  case False
  let ?n = "min len (size_b b - offset)"
  from False have c: "clamp_len b offset len = ?n" by (simp add: clamp_len_def)
  from False have w: "read b hw dest offset len
      = read_loop b hw dest ?n (offset div ESP_HIMEM_BLKSZ) (offset mod ESP_HIMEM_BLKSZ) 0"
    by (auto simp: read_def Let_def)
  have B: "0 < ESP_HIMEM_BLKSZ" by (simp add: ESP_HIMEM_BLKSZ_def)
  have "\<exists>b' hw'. read_loop b hw dest ?n (offset div ESP_HIMEM_BLKSZ)
                     (offset mod ESP_HIMEM_BLKSZ) 0 =
             (b', hw',
              take 0 dest @ region_bytes hw (handle b) (offset + 0) (?n - 0) @ drop ?n dest, ?n)
           \<and> hw_inv hw' \<and> blk_inv hw' b' \<and> handle b' = handle b \<and> size_b b' = size_b b
           \<and> hw_frame (handle b) hw hw' \<and> hw_fault hw' = hw_fault hw
           \<and> hw_ram hw' = hw_ram hw"
    using ok i bi False dst B by (intro read_loop_ok) auto
  then show ?thesis unfolding w c by simp
qed

lemma write_b_keeps:
  assumes "hw_inv hw" "blk_inv hw b"
  shows "case write_b b hw src offset len of (b', hw', n) \<Rightarrow>
      hw_inv hw' \<and> blk_inv hw' b' \<and> handle b' = handle b \<and> size_b b' = size_b b
      \<and> hw_frame (handle b) hw hw'"
  using assms write_loop_keeps[OF assms]
  by (simp add: write_b_def Let_def hw_frame_refl)

lemma read_keeps:
  assumes "hw_inv hw" "blk_inv hw b"
  shows "case read b hw dest offset len of (b', hw', dest', n) \<Rightarrow>
      hw_inv hw' \<and> blk_inv hw' b' \<and> handle b' = handle b \<and> size_b b' = size_b b
      \<and> hw_frame (handle b) hw hw' \<and> hw_ram hw' = hw_ram hw"
  using assms read_loop_keeps[OF assms]
  by (simp add: read_def Let_def hw_frame_refl)

lemma ex_alloc: "allocate HimemBlock ex_hw0 40000 = (ex_blk1, ex_hw1, True)"
  by (simp add: allocate_def HimemBlock_def ex_hw0_def ex_hw1_def ex_blk1_def
      round_up_blksz_def size_t_def ESP_HIMEM_BLKSZ_def esp_himem_alloc_def)

lemma ex_hw0_inv: "hw_inv ex_hw0"
  by (simp add: hw_inv_def ex_hw0_def)

lemma ex_hw1_inv: "hw_inv ex_hw1"
  by (simp add: hw_inv_def ex_hw1_def)

lemma ex_blk1_inv: "blk_inv ex_hw1 ex_blk1"
  by (simp add: blk_inv_def ex_hw1_def ex_blk1_def SIZE_MAX_def ESP_HIMEM_BLKSZ_def
      live_mappings_def)

section \<open>Claims about HimemBlock\<close>

text \<open>
  C9. \<open>unmap\<close> and \<open>free\<close> are idempotent. With nothing mapped \<open>unmap\<close> changes
  nothing, with nothing allocated \<open>free\<close> changes nothing, and a second call of
  either changes nothing; neither raises a fault. \<open>free\<close> on an allocation first
  unmaps (the driver calls of \<open>unmap\<close> precede the single \<open>esp_himem_free\<close> in the
  log), releases the handle exactly once and sets the size to 0.
\<close>

theorem unmap_free_idempotent:
  "(mapped_ptr b = 0 \<or> range_h b = 0 \<longrightarrow> unmap b hw = (b, hw))
   \<and> (case unmap b hw of (b1, hw1) \<Rightarrow>
         unmap b1 hw1 = (b1, hw1) \<and> hw_fault hw1 = hw_fault hw)
   \<and> (handle b = 0 \<longrightarrow> free b hw = (b, hw))
   \<and> (case free b hw of (b1, hw1) \<Rightarrow>
         free b1 hw1 = (b1, hw1) \<and> hw_fault hw1 = hw_fault hw
         \<and> (handle b \<noteq> 0 \<longrightarrow>
              handle b1 = 0 \<and> get_size b1 = 0
              \<and> (mapped_ptr b \<noteq> 0 \<longrightarrow> range_h b \<noteq> 0 \<longrightarrow> mapped_ptr b1 = 0)
              \<and> hw_log hw1 = hw_log (snd (unmap b hw)) @ [Ev_free (handle b)]
              \<and> free_calls hw1 (handle b) = free_calls hw (handle b) + 1))"
  by (auto simp: unmap_def free_def esp_himem_unmap_def esp_himem_free_map_range_def
      esp_himem_free_def free_calls_def get_size_def)

theorem unmap_free_idempotent_witness:
  "unmap HimemBlock ex_hw0 = (HimemBlock, ex_hw0)
   \<and> free HimemBlock ex_hw0 = (HimemBlock, ex_hw0)
   \<and> (case free ex_blk1 ex_hw1 of (b1, hw1) \<Rightarrow>
         free b1 hw1 = (b1, hw1) \<and> handle b1 = 0 \<and> get_size b1 = 0
         \<and> free_calls hw1 1 = free_calls ex_hw1 1 + 1)"
  using unmap_free_idempotent[of HimemBlock ex_hw0] unmap_free_idempotent[of ex_blk1 ex_hw1]
  by (simp add: HimemBlock_def ex_blk1_def split: prod.splits)

lemma round_up_blksz_exact:
  assumes "n + ESP_HIMEM_BLKSZ - 1 \<le> SIZE_MAX"
  shows "ESP_HIMEM_BLKSZ dvd round_up_blksz n" "n \<le> round_up_blksz n"
    "round_up_blksz n < n + ESP_HIMEM_BLKSZ"
proof -
  have e: "round_up_blksz n = ((n + ESP_HIMEM_BLKSZ - 1) div ESP_HIMEM_BLKSZ) * ESP_HIMEM_BLKSZ"
    unfolding round_up_blksz_def size_t_id[OF assms] ..
  show "ESP_HIMEM_BLKSZ dvd round_up_blksz n" unfolding e by simp
  have B: "0 < ESP_HIMEM_BLKSZ" by (simp add: ESP_HIMEM_BLKSZ_def)
  let ?m = "n + ESP_HIMEM_BLKSZ - 1"
  have "?m = (?m div ESP_HIMEM_BLKSZ) * ESP_HIMEM_BLKSZ + ?m mod ESP_HIMEM_BLKSZ" by simp
  moreover have "?m mod ESP_HIMEM_BLKSZ < ESP_HIMEM_BLKSZ" using B by simp
  ultimately show "n \<le> round_up_blksz n" "round_up_blksz n < n + ESP_HIMEM_BLKSZ"
    unfolding e using B by linarith+
qed

lemma round_up_blksz_le: "round_up_blksz n \<le> SIZE_MAX"
proof -
  have "round_up_blksz n \<le> size_t (n + ESP_HIMEM_BLKSZ - 1)"
    unfolding round_up_blksz_def by simp
  also have "\<dots> \<le> SIZE_MAX" by (simp add: size_t_def SIZE_MAX_def)
  finally show ?thesis .
qed

lemma round_up_blksz_dvd: "ESP_HIMEM_BLKSZ dvd round_up_blksz n"
  by (simp add: round_up_blksz_def)

lemma read_unallocated: "handle b = 0 \<Longrightarrow> read b hw dest offset len = (b, hw, dest, 0)"
  by (simp add: read_def)

lemma write_unallocated: "handle b = 0 \<Longrightarrow> write_b b hw src offset len = (b, hw, 0)"
  by (simp add: write_b_def)

text \<open>
  C10. When the hardware denies the allocation requested by \<open>allocate\<close> on a manager
  without allocation, the manager still has no handle, every later \<open>read\<close> and
  \<open>write\<close> returns 0 and leaves everything as it is, and \<open>get_size\<close> reports
  the rounded size computed before the hardware call: the multiple of the block size
  next above the request whenever that rounding stays below \<open>2 ^ 32\<close> (and it is
  then not 0 for a request that is not 0).
\<close>

theorem failed_allocate_keeps_size:
  assumes "handle b = 0" "\<not> hw_alloc_ok hw (hw_alloc_calls hw)"
  shows "case allocate b hw requested of (b', hw', ok) \<Rightarrow>
           \<not> ok \<and> handle b' = 0 \<and> get_size b' = round_up_blksz requested
           \<and> (\<forall>hw2 dest offset len. read b' hw2 dest offset len = (b', hw2, dest, 0))
           \<and> (\<forall>hw2 src offset len. write_b b' hw2 src offset len = (b', hw2, 0))
           \<and> (requested + ESP_HIMEM_BLKSZ - 1 \<le> SIZE_MAX \<longrightarrow>
                ESP_HIMEM_BLKSZ dvd get_size b' \<and> requested \<le> get_size b'
                \<and> get_size b' < requested + ESP_HIMEM_BLKSZ
                \<and> (0 < requested \<longrightarrow> get_size b' \<noteq> 0))"
proof -
  let ?b = "b\<lparr>size_b := round_up_blksz requested\<rparr>"
  have a: "allocate b hw requested =
      (?b, hw\<lparr>hw_alloc_calls := hw_alloc_calls hw + 1,
               hw_log := hw_log hw @ [Ev_alloc (round_up_blksz requested) None]\<rparr>, False)"
    using assms by (simp add: allocate_def esp_himem_alloc_def Let_def)
  have h: "handle ?b = 0" using assms(1) by simp
  show ?thesis
    unfolding a using round_up_blksz_exact[of requested] h
    by (auto simp: get_size_def read_unallocated write_unallocated)
qed

theorem failed_allocate_keeps_size_witness:
  "handle HimemBlock = 0 \<and> \<not> hw_alloc_ok ex_hw_deny (hw_alloc_calls ex_hw_deny)
   \<and> (case allocate HimemBlock ex_hw_deny 40000 of (b', hw', ok) \<Rightarrow>
         \<not> ok \<and> handle b' = 0 \<and> get_size b' = 65536
         \<and> read b' hw' [0, 0] 0 2 = (b', hw', [0, 0], 0))"
proof -
  have h: "handle HimemBlock = 0" by (simp add: HimemBlock_def)
  have d: "\<not> hw_alloc_ok ex_hw_deny (hw_alloc_calls ex_hw_deny)"
    by (simp add: ex_hw_deny_def)
  have r: "round_up_blksz 40000 = 65536"
    by (simp add: round_up_blksz_def size_t_def ESP_HIMEM_BLKSZ_def)
  show ?thesis
    using h d failed_allocate_keeps_size[OF h d, of 40000]
    by (auto simp: r split: prod.splits)
qed

lemma blk_inv_frame:
  assumes "hw_frame h hw hw'" "blk_inv hw b2" "handle b2 \<noteq> h"
  shows "blk_inv hw' b2"
proof -
  from assms(1,3) have "live_mappings hw' b2 = live_mappings hw b2"
    "hw_regions hw' = hw_regions hw"
    by (simp_all add: hw_frame_def live_mappings_def)
  then show ?thesis using assms(2) unfolding blk_inv_def by simp
qed

lemma live_mappings_null:
  assumes "hw_inv hw" "handle b = 0"
  shows "live_mappings hw b = []"
proof -
  have "\<forall>m\<in>set (hw_maps hw). fst (snd m) \<noteq> 0"
    using assms(1) unfolding hw_inv_def list_all_iff by fastforce
  then show ?thesis unfolding live_mappings_def assms(2) by (simp add: filter_empty_conv)
qed

lemma live_mappings_fresh:
  assumes "hw_inv hw" "hw_next hw \<le> handle b"
  shows "live_mappings hw b = []"
proof -
  have "\<forall>m\<in>set (hw_maps hw). fst (snd m) < hw_next hw"
    using assms(1) unfolding hw_inv_def list_all_iff by fastforce
  then have "\<forall>m\<in>set (hw_maps hw). fst (snd m) \<noteq> handle b" using assms(2) by fastforce
  then show ?thesis unfolding live_mappings_def by (simp add: filter_empty_conv)
qed

lemma HimemBlock_inv: "hw_inv hw \<Longrightarrow> blk_inv hw HimemBlock"
  using live_mappings_null[of hw HimemBlock]
  by (simp add: blk_inv_def HimemBlock_def SIZE_MAX_def)

lemma allocate_spec:
  assumes i: "hw_inv hw" and bi: "blk_inv hw b"
  shows "case allocate b hw n of (b', hw', ok) \<Rightarrow>
           hw_inv hw' \<and> blk_inv hw' b' \<and> (\<forall>b2. blk_inv hw b2 \<longrightarrow> blk_inv hw' b2)
           \<and> hw_ram hw' = hw_ram hw \<and> hw_maps hw' = hw_maps hw
           \<and> hw_map_ok hw' = hw_map_ok hw \<and> hw_alloc_ok hw' = hw_alloc_ok hw
           \<and> hw_fault hw' = hw_fault hw \<and> hw_next hw \<le> hw_next hw'
           \<and> (handle b = 0 \<longrightarrow> size_b b' = round_up_blksz n
                \<and> ok = hw_alloc_ok hw (hw_alloc_calls hw)
                \<and> (ok \<longrightarrow> handle b' = hw_next hw)
                \<and> (\<not> ok \<longrightarrow> handle b' = 0)
                \<and> (ok \<longrightarrow> hw_regions hw' = (hw_next hw, round_up_blksz n) # hw_regions hw))"
proof (cases "handle b = 0")
  case False
  then show ?thesis using i bi by (simp add: allocate_def)
next
  case True
  let ?bs = "round_up_blksz n"
  let ?b1 = "b\<lparr>size_b := ?bs\<rparr>"
  from bi True have mp: "mapped_ptr b = 0" by (simp add: blk_inv_def)
  with bi have cl: "range_h b = 0" "current_mapped_block b = SIZE_MAX"
    by (simp_all add: blk_inv_def)
  have lv0: "filter (\<lambda>m. fst (snd m) = 0) (hw_maps hw) = []"
    using live_mappings_null[OF i True] by (simp add: live_mappings_def True)
  show ?thesis
  proof (cases "hw_alloc_ok hw (hw_alloc_calls hw)")
    case deny: False
    let ?hw1 = "hw\<lparr>hw_alloc_calls := hw_alloc_calls hw + 1,
                    hw_log := hw_log hw @ [Ev_alloc ?bs None]\<rparr>"
    have a: "allocate b hw n = (?b1, ?hw1, False)"
      using True deny by (simp add: allocate_def esp_himem_alloc_def Let_def)
    have "hw_inv ?hw1" by (rule hw_inv_mono[OF i]) simp_all
    moreover have "blk_inv ?hw1 ?b1"
      using True mp cl lv0 round_up_blksz_le[of n]
      unfolding blk_inv_def live_mappings_def by simp
    moreover have "\<forall>b2. blk_inv hw b2 \<longrightarrow> blk_inv ?hw1 b2"
      by (intro allI impI, erule blk_inv_cong) simp_all
    ultimately show ?thesis unfolding a using True deny by simp
  next
    case grant: True
    let ?h = "hw_next hw"
    let ?hw1 = "hw\<lparr>hw_regions := (?h, ?bs) # hw_regions hw, hw_next := ?h + 1,
                    hw_alloc_calls := hw_alloc_calls hw + 1,
                    hw_log := hw_log hw @ [Ev_alloc ?bs (Some ?h)]\<rparr>"
    let ?b2 = "b\<lparr>size_b := ?bs, handle := ?h\<rparr>"
    have a: "allocate b hw n = (?b2, ?hw1, True)"
      using True grant by (simp add: allocate_def esp_himem_alloc_def Let_def)
    have hpos: "0 < ?h" using i by (simp add: hw_inv_def)
    have oldr: "\<forall>r\<in>set (hw_regions hw). 0 < fst r \<and> fst r < ?h"
      using i unfolding hw_inv_def list_all_iff by blast
    have oldm: "\<forall>m\<in>set (hw_maps hw). 0 < fst m \<and> fst m < ?h \<and> 0 < fst (snd m) \<and> fst (snd m) < ?h"
      using i unfolding hw_inv_def list_all_iff by blast
    have d: "distinct (map fst (hw_maps hw))" "distinct (map fst (hw_regions hw))"
      using i unfolding hw_inv_def by simp_all
    have fresh: "?h \<notin> fst ` set (hw_regions hw)" using oldr by fastforce
    have "\<forall>r\<in>set (hw_regions hw). 0 < fst r \<and> fst r < ?h + 1" using oldr by fastforce
    moreover have "\<forall>m\<in>set (hw_maps hw). 0 < fst m \<and> fst m < ?h + 1 \<and> 0 < fst (snd m) \<and> fst (snd m) < ?h + 1"
      using oldm by fastforce
    ultimately have i1: "hw_inv ?hw1"
      unfolding hw_inv_def list_all_iff using hpos d fresh by simp
    have lv: "live_mappings hw ?b2 = []"
      by (rule live_mappings_fresh[OF i]) simp
    have b1: "blk_inv ?hw1 ?b2"
      using mp cl hpos round_up_blksz_le[of n] round_up_blksz_dvd[of n] lv
      unfolding blk_inv_def live_mappings_def by simp
    have others: "\<forall>b2. blk_inv hw b2 \<longrightarrow> blk_inv ?hw1 b2"
    proof (intro allI impI)
      fix b2 assume b2: "blk_inv hw b2"
      have "handle b2 \<noteq> 0 \<Longrightarrow> handle b2 \<noteq> ?h"
      proof -
        assume "handle b2 \<noteq> 0"
        with b2 have "map_of (hw_regions hw) (handle b2) = Some (size_b b2)"
          by (simp add: blk_inv_def)
        from handle_below_next[OF i this] show ?thesis by simp
      qed
      then show "blk_inv ?hw1 b2"
        using b2 unfolding blk_inv_def live_mappings_def by auto
    qed
    show ?thesis unfolding a using i1 b1 others True grant by simp
  qed
qed

lemma map_of_filter_other:
  "h2 \<noteq> h \<Longrightarrow> map_of (filter (\<lambda>r. fst r \<noteq> h) rs) h2 = map_of rs h2"
  by (induction rs) auto

lemma free_spec:
  assumes i: "hw_inv hw" and bi: "blk_inv hw b"
  shows "case free b hw of (b', hw') \<Rightarrow>
           hw_inv hw' \<and> blk_inv hw' b' \<and> mapped_ptr b' = 0
           \<and> (handle b \<noteq> 0 \<longrightarrow> handle b' = 0 \<and> size_b b' = 0)
           \<and> (\<forall>b2. blk_inv hw b2 \<and> handle b2 \<noteq> handle b \<longrightarrow> blk_inv hw' b2)
           \<and> hw_ram hw' = hw_ram hw
           \<and> hw_map_ok hw' = hw_map_ok hw \<and> hw_alloc_ok hw' = hw_alloc_ok hw
           \<and> hw_alloc_calls hw' = hw_alloc_calls hw
           \<and> hw_fault hw' = hw_fault hw \<and> hw_next hw \<le> hw_next hw'"
proof (cases "handle b = 0")
  case True
  then show ?thesis using i bi by (auto simp: free_def blk_inv_def)
next
  case False
  obtain b1 hw1 where u: "unmap b hw = (b1, hw1)" by (cases "unmap b hw")
  from unmap_spec[OF i bi] u
  have i1: "hw_inv hw1" and bi1: "blk_inv hw1 b1" and mp: "mapped_ptr b1 = 0"
    and h1: "handle b1 = handle b" and r1: "hw_ram hw1 = hw_ram hw"
    and f1: "hw_frame (handle b) hw hw1" and fl1: "hw_fault hw1 = hw_fault hw"
    by simp_all
  let ?hw2 = "esp_himem_free hw1 (handle b)"
  let ?b2 = "b1\<lparr>handle := 0, size_b := 0\<rparr>"
  have fr: "free b hw = (?b2, ?hw2)" using False by (simp add: free_def u)
  have i2: "hw_inv ?hw2"
    using i1 unfolding hw_inv_def esp_himem_free_def list_all_iff
    by (auto simp: distinct_map_filter)
  have "live_mappings ?hw2 ?b2 = []" by (rule live_mappings_null[OF i2]) simp
  then have b2: "blk_inv ?hw2 ?b2"
    using bi1 mp unfolding blk_inv_def by (simp add: SIZE_MAX_def)
  have others: "\<forall>b3. blk_inv hw b3 \<and> handle b3 \<noteq> handle b \<longrightarrow> blk_inv ?hw2 b3"
  proof (intro allI impI, elim conjE)
    fix b3 assume b3: "blk_inv hw b3" and ne: "handle b3 \<noteq> handle b"
    from blk_inv_frame[OF f1 b3 ne] have "blk_inv hw1 b3" .
    then show "blk_inv ?hw2 b3"
      using ne unfolding blk_inv_def live_mappings_def esp_himem_free_def
      by (simp add: map_of_filter_other)
  qed
  have rest: "hw_ram ?hw2 = hw_ram hw" "hw_map_ok ?hw2 = hw_map_ok hw"
    "hw_alloc_ok ?hw2 = hw_alloc_ok hw" "hw_alloc_calls ?hw2 = hw_alloc_calls hw"
    "hw_fault ?hw2 = hw_fault hw" "hw_next hw \<le> hw_next ?hw2"
    using r1 f1 fl1 by (simp_all add: esp_himem_free_def hw_frame_def)
  show ?thesis unfolding fr using i2 b2 others rest mp by simp
qed

lemma reach_inv: "reach hw b \<Longrightarrow> hw_inv hw \<and> blk_inv hw b"
proof (induction rule: reach.induct)
  case (reach_new hw)
  then show ?case by (simp add: HimemBlock_inv)
next
  case (reach_allocate hw b n b' hw' ok)
  with allocate_spec[of hw b n] show ?case by simp
next
  case (reach_read hw b dest offset len b' hw' dest' n)
  with read_keeps[of hw b dest offset len] show ?case by simp
next
  case (reach_write hw b src offset len b' hw' n)
  with write_b_keeps[of hw b src offset len] show ?case by simp
next
  case (reach_unmap hw b b' hw')
  with unmap_spec[of hw b] show ?case by simp
next
  case (reach_free hw b b' hw')
  with free_spec[of hw b] show ?case by simp
next
  case (reach_ensure hw b idx b' hw' ok)
  with ensure_block_mapped_spec[of hw b idx] show ?case by simp
qed

lemma clamp_len_within:
  "handle b \<noteq> 0 \<Longrightarrow> offset + len \<le> size_b b \<Longrightarrow> clamp_len b offset len = len"
  by (auto simp: clamp_len_def)

lemma frame_map_ok: "hw_frame h hw hw' \<Longrightarrow> \<forall>n. hw_map_ok hw n \<Longrightarrow> \<forall>n. hw_map_ok hw' n"
  by (simp add: hw_frame_def)

lemma frame_ram_upd:
  assumes "hw_frame h hw hw'" "hw_ram hw' h = f"
  shows "hw_ram hw' = (hw_ram hw)(h := f)"
  using assms by (auto simp: hw_frame_def fun_eq_iff)

text \<open>
  C1. Round trip. On an allocated manager in agreement with a well-formed driver,
  when every mapping request is granted, writing \<open>len\<close> bytes at an offset with
  \<open>offset + len\<close> within the allocation and then reading the same range returns
  \<open>len\<close> from both calls, and the bytes read are the bytes written (the rest of the
  destination buffer is untouched). The buffers hold at least \<open>len\<close> bytes.
\<close>

theorem write_read_round_trip:
  assumes "hw_inv hw" "blk_inv hw b" "handle b \<noteq> 0" "\<forall>n. hw_map_ok hw n"
    and "offset + len \<le> size_b b" "len \<le> length src" "len \<le> length dest"
  shows "case write_b b hw src offset len of (b1, hw1, n) \<Rightarrow>
           n = len \<and>
           (case read b1 hw1 dest offset len of (b2, hw2, dest', m) \<Rightarrow>
              m = len \<and> take len dest' = take len src \<and> drop len dest' = drop len dest)"
proof -
  have c: "clamp_len b offset len = len" by (rule clamp_len_within[OF assms(3,5)])
  from write_b_spec[OF assms(4,1,2,6), of offset] obtain b1 hw1 where
    w: "write_b b hw src offset len = (b1, hw1, len)"
    and i1: "hw_inv hw1" and bi1: "blk_inv hw1 b1" and h1: "handle b1 = handle b"
    and s1: "size_b b1 = size_b b" and f1: "hw_frame (handle b) hw hw1"
    and r1: "hw_ram hw1 (handle b) =
             (\<lambda>a. if offset \<le> a \<and> a < offset + len then src ! (a - offset)
                  else hw_ram hw (handle b) a)"
    unfolding c by blast
  have c1: "clamp_len b1 offset len = len"
    by (rule clamp_len_within) (simp_all add: h1 s1 assms)
  from read_spec[OF frame_map_ok[OF f1 assms(4)] i1 bi1 assms(7), of offset] obtain b2 hw2 where
    r: "read b1 hw1 dest offset len =
          (b2, hw2, region_bytes hw1 (handle b1) offset len @ drop len dest, len)"
    unfolding c1 by blast
  have "region_bytes hw1 (handle b1) offset len = take len src"
    by (rule nth_equalityI) (use assms(6) in \<open>simp_all add: h1 r1\<close>)
  then show ?thesis using assms(6,7) by (simp add: w r min_absorb2)
qed

theorem write_read_round_trip_witness:
  "hw_inv ex_hw1 \<and> blk_inv ex_hw1 ex_blk1 \<and> handle ex_blk1 \<noteq> 0 \<and> (\<forall>n. hw_map_ok ex_hw1 n)
   \<and> 32766 + 4 \<le> size_b ex_blk1
   \<and> (case write_b ex_blk1 ex_hw1 [1, 2, 3, 4] 32766 4 of (b1, hw1, n) \<Rightarrow>
         n = 4 \<and>
         (case read b1 hw1 [0, 0, 0, 0, 0] 32766 4 of (b2, hw2, dest', m) \<Rightarrow>
            m = 4 \<and> take 4 dest' = [1, 2, 3, 4]))"
proof -
  have h: "handle ex_blk1 \<noteq> 0" "\<forall>n. hw_map_ok ex_hw1 n" "32766 + 4 \<le> size_b ex_blk1"
    by (simp_all add: ex_blk1_def ex_hw1_def)
  from write_read_round_trip[OF ex_hw1_inv ex_blk1_inv h(1) h(2) h(3),
      of "[1, 2, 3, 4]" "[0, 0, 0, 0, 0]"]
  show ?thesis using ex_hw1_inv ex_blk1_inv h by (simp split: prod.splits)
qed

text \<open>
  C6. \<open>read\<close> and \<open>write\<close> return 0 and change nothing when the manager has
  no allocation or the offset is at or beyond the size. Otherwise, when every mapping
  request is granted, they transfer exactly \<open>min len (size - offset)\<close> bytes, which end
  within the allocation: \<open>read\<close> delivers the bytes of the allocation from
  \<open>offset\<close> on and changes no byte of the memory, \<open>write\<close> replaces exactly these
  bytes of the allocation and no others.
\<close>

theorem read_write_clamped:
  "(handle b = 0 \<or> size_b b \<le> offset \<longrightarrow>
      read b hw dest offset len = (b, hw, dest, 0)
      \<and> write_b b hw src offset len = (b, hw, 0))
   \<and> (hw_inv hw \<and> blk_inv hw b \<and> (\<forall>n. hw_map_ok hw n) \<and> handle b \<noteq> 0
        \<and> offset < size_b b \<and> len \<le> length dest \<and> len \<le> length src \<longrightarrow>
      (let n = min len (size_b b - offset) in
         offset + n \<le> size_b b
         \<and> (\<exists>b' hw'. read b hw dest offset len =
                        (b', hw', region_bytes hw (handle b) offset n @ drop n dest, n)
                      \<and> hw_ram hw' = hw_ram hw)
         \<and> (\<exists>b' hw'. write_b b hw src offset len = (b', hw', n)
                      \<and> hw_ram hw' = (hw_ram hw)(handle b :=
                           (\<lambda>a. if offset \<le> a \<and> a < offset + n then src ! (a - offset)
                                else hw_ram hw (handle b) a)))))"
proof (intro conjI impI)
  assume "handle b = 0 \<or> size_b b \<le> offset"
  then show "read b hw dest offset len = (b, hw, dest, 0)" by (auto simp: read_def)
next
  assume "handle b = 0 \<or> size_b b \<le> offset"
  then show "write_b b hw src offset len = (b, hw, 0)" by (auto simp: write_b_def)
next
  assume a: "hw_inv hw \<and> blk_inv hw b \<and> (\<forall>n. hw_map_ok hw n) \<and> handle b \<noteq> 0
        \<and> offset < size_b b \<and> len \<le> length dest \<and> len \<le> length src"
  let ?n = "min len (size_b b - offset)"
  from a have c: "clamp_len b offset len = ?n" by (simp add: clamp_len_def)
  from a have i: "hw_inv hw" and bi: "blk_inv hw b" and ok: "\<forall>n. hw_map_ok hw n"
    and d: "len \<le> length dest" and s: "len \<le> length src" by simp_all
  from read_spec[OF ok i bi d, of offset] have
    r: "\<exists>b' hw'. read b hw dest offset len =
                        (b', hw', region_bytes hw (handle b) offset ?n @ drop ?n dest, ?n)
                      \<and> hw_ram hw' = hw_ram hw"
    unfolding c by blast
  from write_b_spec[OF ok i bi s, of offset] obtain b' hw' where
    w: "write_b b hw src offset len = (b', hw', ?n)" and f: "hw_frame (handle b) hw hw'"
    and ram: "hw_ram hw' (handle b) =
       (\<lambda>a. if offset \<le> a \<and> a < offset + ?n then src ! (a - offset)
            else hw_ram hw (handle b) a)"
    unfolding c by blast
  from frame_ram_upd[OF f ram] w have
    "\<exists>b' hw'. write_b b hw src offset len = (b', hw', ?n)
                      \<and> hw_ram hw' = (hw_ram hw)(handle b :=
                           (\<lambda>a. if offset \<le> a \<and> a < offset + ?n then src ! (a - offset)
                                else hw_ram hw (handle b) a))"
    by blast
  moreover have "offset + ?n \<le> size_b b"
  proof -
    from a have "offset < size_b b" by simp
    then show ?thesis by (cases "len \<le> size_b b - offset") (simp_all add: min_def)
  qed
  ultimately show "let n = min len (size_b b - offset) in
         offset + n \<le> size_b b
         \<and> (\<exists>b' hw'. read b hw dest offset len =
                        (b', hw', region_bytes hw (handle b) offset n @ drop n dest, n)
                      \<and> hw_ram hw' = hw_ram hw)
         \<and> (\<exists>b' hw'. write_b b hw src offset len = (b', hw', n)
                      \<and> hw_ram hw' = (hw_ram hw)(handle b :=
                           (\<lambda>a. if offset \<le> a \<and> a < offset + n then src ! (a - offset)
                                else hw_ram hw (handle b) a)))"
    using r unfolding Let_def by blast
qed

theorem read_write_clamped_witness:
  "read HimemBlock ex_hw0 [7, 7] 0 2 = (HimemBlock, ex_hw0, [7, 7], 0)
   \<and> write_b ex_blk1 ex_hw1 [7, 7] 65536 2 = (ex_blk1, ex_hw1, 0)
   \<and> (\<exists>b' hw'. read ex_blk1 ex_hw1 [7, 7, 7, 7] 65534 4 = (b', hw', [0, 0, 7, 7], 2))
   \<and> (\<exists>b' hw'. write_b ex_blk1 ex_hw1 [7, 7, 7, 7] 65534 4 = (b', hw', 2))"
proof -
  have h: "hw_inv ex_hw1 \<and> blk_inv ex_hw1 ex_blk1 \<and> (\<forall>n. hw_map_ok ex_hw1 n)
      \<and> handle ex_blk1 \<noteq> 0 \<and> 65534 < size_b ex_blk1
      \<and> 4 \<le> length [7, 7, 7, 7 :: byte] \<and> 4 \<le> length [7, 7, 7, 7 :: byte]"
    using ex_hw1_inv ex_blk1_inv by (simp add: ex_blk1_def ex_hw1_def)
  have z: "region_bytes ex_hw1 (handle ex_blk1) 65534 2 = [0, 0]"
    by (simp add: region_bytes_def ex_hw1_def upt_conv_Cons)
  have m: "min 4 (size_b ex_blk1 - 65534) = 2" by (simp add: ex_blk1_def)
  from read_write_clamped[of HimemBlock 0 ex_hw0 "[7, 7]" 2 "[7, 7]"]
  have 1: "read HimemBlock ex_hw0 [7, 7] 0 2 = (HimemBlock, ex_hw0, [7, 7], 0)"
    by (simp add: HimemBlock_def)
  from read_write_clamped[of ex_blk1 65536 ex_hw1 "[7, 7]" 2 "[7, 7]"]
  have 2: "write_b ex_blk1 ex_hw1 [7, 7] 65536 2 = (ex_blk1, ex_hw1, 0)"
    by (simp add: ex_blk1_def)
  from read_write_clamped[of ex_blk1 65534 ex_hw1 "[7, 7, 7, 7]" 4 "[7, 7, 7, 7]"] h
  have 3: "(\<exists>b' hw'. read ex_blk1 ex_hw1 [7, 7, 7, 7] 65534 4 = (b', hw', [0, 0, 7, 7], 2))
     \<and> (\<exists>b' hw'. write_b ex_blk1 ex_hw1 [7, 7, 7, 7] 65534 4 = (b', hw', 2))"
    unfolding Let_def m z by auto
  from 1 2 3 show ?thesis by simp
qed

lemma ensure_unmaps_first:
  assumes "idx \<noteq> current_mapped_block b" "mapped_ptr b \<noteq> 0" "range_h b \<noteq> 0"
  shows "\<exists>rest. hw_log (fst (snd (ensure_block_mapped b hw idx))) =
           hw_log hw @ Ev_unmap (range_h b) (mapped_ptr b)
             # Ev_free_map_range (range_h b) # rest"
  using assms
  by (auto simp: ensure_block_mapped_def unmap_def esp_himem_unmap_def
      esp_himem_free_map_range_def esp_himem_alloc_map_range_def esp_himem_map_def Let_def
      split: option.splits prod.splits)

lemma ensure_opens:
  assumes "idx \<noteq> current_mapped_block b" "0 < hw_next hw"
    "ensure_block_mapped b hw idx = (b', hw', True)"
  shows "mapped_ptr b' \<noteq> 0"
  using assms
  by (auto simp: ensure_block_mapped_def unmap_def esp_himem_unmap_def
      esp_himem_free_map_range_def esp_himem_alloc_map_range_def esp_himem_map_def Let_def
      split: option.splits prod.splits if_splits)

lemma blk_inv_live_le: "blk_inv hw b \<Longrightarrow> length (live_mappings hw b) \<le> 1"
  by (cases "mapped_ptr b = 0") (simp_all add: blk_inv_def)

text \<open>
  C7. In every reachable state a manager has at most one live mapping.
  \<open>ensure_block_mapped\<close> changes nothing when the index is the mapped block. Otherwise
  its first driver calls unmap and release the previous window, before any mapping
  request; when it fails the manager is unmapped (sentinel index, null pointer, no live
  mapping), and when it succeeds the one live mapping is that of the requested block.
\<close>

theorem window_single_mapping:
  assumes "reach hw b"
  shows "length (live_mappings hw b) \<le> 1
     \<and> ensure_block_mapped b hw (current_mapped_block b) = (b, hw, True)
     \<and> (case ensure_block_mapped b hw idx of (b', hw', ok) \<Rightarrow>
          reach hw' b' \<and> length (live_mappings hw' b') \<le> 1
          \<and> (\<not> ok \<longrightarrow> current_mapped_block b' = SIZE_MAX \<and> mapped_ptr b' = 0
                \<and> live_mappings hw' b' = [])
          \<and> (ok \<and> idx \<noteq> current_mapped_block b \<longrightarrow>
                live_mappings hw' b' =
                  [(mapped_ptr b', handle b', size_t (idx * ESP_HIMEM_BLKSZ))])
          \<and> (idx \<noteq> current_mapped_block b \<and> mapped_ptr b \<noteq> 0 \<longrightarrow>
                (\<exists>rest. hw_log hw' =
                   hw_log hw @ Ev_unmap (range_h b) (mapped_ptr b)
                     # Ev_free_map_range (range_h b) # rest)))"
proof -
  from reach_inv[OF assms] have i: "hw_inv hw" and bi: "blk_inv hw b" by simp_all
  obtain b' hw' ok where e: "ensure_block_mapped b hw idx = (b', hw', ok)"
    by (cases "ensure_block_mapped b hw idx")
  have r': "reach hw' b'" by (rule reach_ensure[OF assms e])
  from reach_inv[OF r'] have i': "hw_inv hw'" and bi': "blk_inv hw' b'" by simp_all
  from ensure_block_mapped_spec[OF i bi, of idx] e
  have fail: "\<not> ok \<longrightarrow> mapped_ptr b' = 0 \<and> current_mapped_block b' = SIZE_MAX"
    and cur: "ok \<longrightarrow> current_mapped_block b' = idx" by simp_all
  have lv0: "\<not> ok \<longrightarrow> live_mappings hw' b' = []"
    using fail bi' by (auto simp: blk_inv_def)
  have lv1: "ok \<and> idx \<noteq> current_mapped_block b \<longrightarrow>
      live_mappings hw' b' = [(mapped_ptr b', handle b', size_t (idx * ESP_HIMEM_BLKSZ))]"
  proof (intro impI, elim conjE)
    assume ok and ne: "idx \<noteq> current_mapped_block b"
    from i have "0 < hw_next hw" by (simp add: hw_inv_def)
    from ensure_opens[OF ne this] e \<open>ok\<close> have "mapped_ptr b' \<noteq> 0" by simp
    with bi' cur \<open>ok\<close> show "live_mappings hw' b' =
        [(mapped_ptr b', handle b', size_t (idx * ESP_HIMEM_BLKSZ))]"
      by (simp add: blk_inv_def)
  qed
  have lg: "idx \<noteq> current_mapped_block b \<and> mapped_ptr b \<noteq> 0 \<longrightarrow>
      (\<exists>rest. hw_log hw' = hw_log hw @ Ev_unmap (range_h b) (mapped_ptr b)
                     # Ev_free_map_range (range_h b) # rest)"
  proof (intro impI, elim conjE)
    assume ne: "idx \<noteq> current_mapped_block b" and mp: "mapped_ptr b \<noteq> 0"
    from bi mp have "range_h b \<noteq> 0" by (simp add: blk_inv_def)
    from ensure_unmaps_first[OF ne mp this, of hw] e
    show "\<exists>rest. hw_log hw' = hw_log hw @ Ev_unmap (range_h b) (mapped_ptr b)
                     # Ev_free_map_range (range_h b) # rest" by simp
  qed
  have same: "ensure_block_mapped b hw (current_mapped_block b) = (b, hw, True)"
    by (simp add: ensure_block_mapped_def)
  show ?thesis
    unfolding e using blk_inv_live_le[OF bi] blk_inv_live_le[OF bi'] same r' fail lv0 lv1 lg
    by simp
qed

lemma ex_ensure: "ensure_block_mapped ex_blk1 ex_hw1 0 = (ex_blk2, ex_hw2, True)"
  by (simp add: ensure_block_mapped_def ex_blk1_def ex_hw1_def ex_blk2_def ex_hw2_def
      unmap_def esp_himem_alloc_map_range_def esp_himem_map_def block_in_region_def
      SIZE_MAX_def size_t_def ESP_HIMEM_BLKSZ_def Let_def)

lemma ex_reach2: "reach ex_hw2 ex_blk2"
  by (rule reach_ensure[OF reach_allocate[OF reach_new[OF ex_hw0_inv] ex_alloc] ex_ensure])

theorem window_single_mapping_witness:
  "reach ex_hw2 ex_blk2
   \<and> length (live_mappings ex_hw2 ex_blk2) \<le> 1
   \<and> (case ensure_block_mapped ex_blk2 ex_hw2 1 of (b', hw', ok) \<Rightarrow>
         length (live_mappings hw' b') \<le> 1
         \<and> (\<not> ok \<longrightarrow> current_mapped_block b' = SIZE_MAX \<and> mapped_ptr b' = 0)
         \<and> (\<exists>rest. hw_log hw' = hw_log ex_hw2 @ Ev_unmap 2 3 # Ev_free_map_range 2 # rest))"
  using ex_reach2 window_single_mapping[OF ex_reach2, of 1]
  by (simp add: ex_blk2_def split: prod.splits)

lemma reallocate_denied:
  assumes "\<not> hw_alloc_ok hw (hw_alloc_calls hw)" "element_capacity v < n"
  shows "reallocate esz v hw n =
           (v, denied hw (round_up_blksz (calculate_size_bytes esz (max n min_elements))), False)"
  using assms
  by (simp add: reallocate_def allocate_def esp_himem_alloc_def HimemBlock_def free_def
      denied_def Let_def)

text \<open>
  C5. When the hardware denies the allocation that \<open>push_back\<close>, \<open>insert\<close>,
  \<open>resize\<close> (both forms) or \<open>reserve\<close> asks for in order to grow, the vector is
  returned as it was, and the driver differs only by the count and the log entry of the
  denied request: sizes, capacity and every stored byte are those before the call.
\<close>

theorem growth_denied_no_effect:
  assumes "\<not> hw_alloc_ok hw (hw_alloc_calls hw)"
  shows "(element_capacity v \<le> element_count v \<and> element_capacity v < grow_capacity v \<longrightarrow>
            (\<exists>n. push_back esz v hw val = (v, denied hw n)))
       \<and> (pos \<le> element_count v \<and> element_capacity v \<le> element_count v
            \<and> element_capacity v < grow_capacity v \<longrightarrow>
            (\<exists>n. insert_at esz v hw pos val = (v, denied hw n)))
       \<and> (element_capacity v < count \<longrightarrow>
            (\<exists>n. resize esz v hw count = (v, denied hw n)))
       \<and> (element_count v < count \<and> element_capacity v < count \<longrightarrow>
            (\<exists>n. resize_val esz v hw count val = (v, denied hw n)))
       \<and> (element_capacity v < count \<longrightarrow>
            (\<exists>n. reserve esz v hw count = (v, denied hw n)))
       \<and> hw_ram (denied hw k) = hw_ram hw \<and> hw_regions (denied hw k) = hw_regions hw
       \<and> hw_maps (denied hw k) = hw_maps hw"
  using assms
  by (auto simp: push_back_def insert_at_def resize_def resize_val_def reserve_def
      reallocate_denied denied_def)

theorem growth_denied_no_effect_witness:
  "\<not> hw_alloc_ok ex_hw_deny (hw_alloc_calls ex_hw_deny)
   \<and> (\<exists>n. push_back 1 VectorHIMEM ex_hw_deny [7] = (VectorHIMEM, denied ex_hw_deny n))
   \<and> (\<exists>n. insert_at 1 VectorHIMEM ex_hw_deny 0 [7] = (VectorHIMEM, denied ex_hw_deny n))
   \<and> (\<exists>n. resize 1 VectorHIMEM ex_hw_deny 5 = (VectorHIMEM, denied ex_hw_deny n))
   \<and> (\<exists>n. resize_val 1 VectorHIMEM ex_hw_deny 5 [7] = (VectorHIMEM, denied ex_hw_deny n))
   \<and> (\<exists>n. reserve 1 VectorHIMEM ex_hw_deny 5 = (VectorHIMEM, denied ex_hw_deny n))"
proof -
  have d: "\<not> hw_alloc_ok ex_hw_deny (hw_alloc_calls ex_hw_deny)"
    by (simp add: ex_hw_deny_def)
  from growth_denied_no_effect[OF d, where v=VectorHIMEM and esz=1 and val="[7]"
      and pos=0 and count=5] d
  show ?thesis by (simp add: VectorHIMEM_def grow_capacity_def min_elements_def)
qed

lemmas eval_defs = push_back_def reallocate_def allocate_def esp_himem_alloc_def HimemBlock_def
  VectorHIMEM_def ex_hw0_def grow_capacity_def min_elements_def calculate_size_bytes_def
  round_up_blksz_def size_t_def sub_size_t_def ESP_HIMEM_BLKSZ_def SIZE_MAX_def
  move_assign_def free_def unmap_def get_size_def write_b_def write_loop.simps read_def
  read_loop.simps ensure_block_mapped_def esp_himem_alloc_map_range_def esp_himem_map_def
  block_in_region_def window_store_def window_load_def esp_himem_free_def
  esp_himem_unmap_def esp_himem_free_map_range_def Let_def

text \<open>
  C8. The claim fails: on the empty vector left by \<open>push_back\<close> of the byte 7 and
  \<open>pop_back\<close>, \<open>front\<close> returns the removed element and \<open>back\<close> returns the
  bytes its staging buffer held before, both as ordinary values.
\<close>

theorem front_back_empty_counterexample:
  "element_count (pop_back (fst (push_back 1 VectorHIMEM ex_hw0 [7]))) = 0
   \<and> access_value (front 1 (pop_back (fst (push_back 1 VectorHIMEM ex_hw0 [7])))
                     (snd (push_back 1 VectorHIMEM ex_hw0 [7])) [0]) = Inr [7]
   \<and> access_value (back_v 1 (pop_back (fst (push_back 1 VectorHIMEM ex_hw0 [7])))
                     (snd (push_back 1 VectorHIMEM ex_hw0 [7])) [9]) = Inr [9]"
  by (simp add: eval_defs front_def back_v_def pop_back_def access_value_def)

text \<open>
  C2. The claim fails for an element type of three bytes: after one \<open>push_back\<close> the
  capacity is 10922 elements (one block of 32768 bytes), which is not a multiple of 16.
\<close>

theorem push_back_capacity_counterexample:
  "size_v (fst (push_back 3 VectorHIMEM ex_hw0 [1, 2, 3])) = 1
   \<and> capacity (fst (push_back 3 VectorHIMEM ex_hw0 [1, 2, 3])) = 10922
   \<and> \<not> 16 dvd capacity (fst (push_back 3 VectorHIMEM ex_hw0 [1, 2, 3]))"
  by (simp add: eval_defs capacity_def size_v_def)

lemma elem_disjoint:
  fixes i j k esz :: nat
  assumes "j \<noteq> i" "k < esz"
  shows "\<not> (i * esz \<le> j * esz + k \<and> j * esz + k < i * esz + esz)"
proof (cases "j < i")
  case True
  then have "Suc j \<le> i" by simp
  then have "Suc j * esz \<le> i * esz" by (rule mult_le_mono1)
  with assms(2) show ?thesis by simp
next
  case False
  with assms(1) have "Suc i \<le> j" by simp
  then have "Suc i * esz \<le> j * esz" by (rule mult_le_mono1)
  then show ?thesis by simp
qed

lemma elem_offset:
  assumes "blk_inv hw m" "(i + 1) * esz \<le> size_b m"
  shows "size_t (i * esz) = i * esz"
proof -
  from assms(1) have "size_b m \<le> SIZE_MAX" by (simp add: blk_inv_def)
  with assms(2) have "i * esz \<le> SIZE_MAX" by simp
  then show ?thesis by (rule size_t_id)
qed

lemma elem_write:
  assumes ok: "\<forall>n. hw_map_ok hw n" and i: "hw_inv hw" and bi: "blk_inv hw m"
    and h: "handle m \<noteq> 0" and fit: "(i + 1) * esz \<le> size_b m" and le: "length e = esz"
  shows "\<exists>m' hw'. write_b m hw e (size_t (i * esz)) esz = (m', hw', esz)
           \<and> hw_inv hw' \<and> blk_inv hw' m' \<and> handle m' = handle m \<and> size_b m' = size_b m
           \<and> hw_frame (handle m) hw hw' \<and> hw_fault hw' = hw_fault hw
           \<and> (\<forall>j. region_bytes hw' (handle m) (j * esz) esz
                    = (if j = i then e else region_bytes hw (handle m) (j * esz) esz))"
proof -
  have c: "clamp_len m (i * esz) esz = esz"
    by (rule clamp_len_within[OF h]) (use fit in simp)
  from write_b_spec[OF ok i bi, of esz e "i * esz"] le obtain m' hw' where
    w: "write_b m hw e (i * esz) esz = (m', hw', esz)"
    and p: "hw_inv hw'" "blk_inv hw' m'" "handle m' = handle m" "size_b m' = size_b m"
      "hw_frame (handle m) hw hw'" "hw_fault hw' = hw_fault hw"
    and r: "hw_ram hw' (handle m) =
             (\<lambda>a. if i * esz \<le> a \<and> a < i * esz + esz then e ! (a - i * esz)
                  else hw_ram hw (handle m) a)"
    unfolding c by auto
  have "\<forall>j. region_bytes hw' (handle m) (j * esz) esz
            = (if j = i then e else region_bytes hw (handle m) (j * esz) esz)"
  proof
    fix j
    show "region_bytes hw' (handle m) (j * esz) esz
            = (if j = i then e else region_bytes hw (handle m) (j * esz) esz)"
    proof (cases "j = i")
      case True
      have "region_bytes hw' (handle m) (i * esz) esz = e"
        by (rule nth_equalityI) (simp_all add: le r)
      with True show ?thesis by simp
    next
      case False
      have "region_bytes hw' (handle m) (j * esz) esz = region_bytes hw (handle m) (j * esz) esz"
      proof (rule nth_equalityI)
        show "length (region_bytes hw' (handle m) (j * esz) esz)
              = length (region_bytes hw (handle m) (j * esz) esz)" by simp
      next
        fix k assume "k < length (region_bytes hw' (handle m) (j * esz) esz)"
        then have k: "k < esz" by simp
        from elem_disjoint[OF False k]
        have "\<not> (i * esz \<le> j * esz + k \<and> j * esz + k < i * esz + esz)" .
        then show "region_bytes hw' (handle m) (j * esz) esz ! k
              = region_bytes hw (handle m) (j * esz) esz ! k"
          using k by (auto simp: r)
      qed
      with False show ?thesis by simp
    qed
  qed
  with w p show ?thesis unfolding elem_offset[OF bi fit] by blast
qed

lemma elem_read:
  assumes ok: "\<forall>n. hw_map_ok hw n" and i: "hw_inv hw" and bi: "blk_inv hw m"
    and h: "handle m \<noteq> 0" and fit: "(i + 1) * esz \<le> size_b m" and le: "length t = esz"
  shows "\<exists>m' hw'. read m hw t (size_t (i * esz)) esz
             = (m', hw', region_bytes hw (handle m) (i * esz) esz, esz)
           \<and> hw_inv hw' \<and> blk_inv hw' m' \<and> handle m' = handle m \<and> size_b m' = size_b m
           \<and> hw_frame (handle m) hw hw' \<and> hw_fault hw' = hw_fault hw
           \<and> hw_ram hw' = hw_ram hw"
proof -
  have c: "clamp_len m (i * esz) esz = esz"
    by (rule clamp_len_within[OF h]) (use fit in simp)
  from read_spec[OF ok i bi, of esz t "i * esz"] le
  show ?thesis unfolding c elem_offset[OF bi fit] by simp
qed

lemma region_bytes_frame:
  "hw_frame h hw hw' \<Longrightarrow> h2 \<noteq> h \<Longrightarrow> region_bytes hw' h2 off n = region_bytes hw h2 off n"
  by (simp add: hw_frame_def region_bytes_def)

lemma move_element_ok:
  assumes ok: "\<forall>n. hw_map_ok hw n" and i: "hw_inv hw" and bi: "blk_inv hw m"
    and h: "handle m \<noteq> 0" and fi: "(i + 1) * esz \<le> size_b m"
    and fj: "(j + 1) * esz \<le> size_b m" and le: "length t = esz"
  shows "\<exists>m' hw' t'. move_element esz i j (m, hw, t) = (m', hw', t')
           \<and> (\<forall>n. hw_map_ok hw' n) \<and> hw_inv hw' \<and> blk_inv hw' m'
           \<and> handle m' = handle m \<and> size_b m' = size_b m \<and> length t' = esz
           \<and> hw_frame (handle m) hw hw' \<and> hw_fault hw' = hw_fault hw
           \<and> (\<forall>k. region_bytes hw' (handle m) (k * esz) esz
                    = (if k = j then region_bytes hw (handle m) (i * esz) esz
                       else region_bytes hw (handle m) (k * esz) esz))"
proof -
  let ?e = "region_bytes hw (handle m) (i * esz) esz"
  from elem_read[OF ok i bi h fi le] obtain m1 hw1 where
    r: "read m hw t (size_t (i * esz)) esz = (m1, hw1, ?e, esz)"
    and p1: "hw_inv hw1" "blk_inv hw1 m1" "handle m1 = handle m" "size_b m1 = size_b m"
      "hw_frame (handle m) hw hw1" "hw_fault hw1 = hw_fault hw" "hw_ram hw1 = hw_ram hw"
    by blast
  have ok1: "\<forall>n. hw_map_ok hw1 n" by (rule frame_map_ok[OF p1(5) ok])
  have h1: "handle m1 \<noteq> 0" and fj1: "(j + 1) * esz \<le> size_b m1"
    using h fj p1 by simp_all
  have le1: "length ?e = esz" by simp
  from elem_write[OF ok1 p1(1,2) h1 fj1 le1] obtain m2 hw2 where
    w: "write_b m1 hw1 ?e (size_t (j * esz)) esz = (m2, hw2, esz)"
    and p2: "hw_inv hw2" "blk_inv hw2 m2" "handle m2 = handle m1" "size_b m2 = size_b m1"
      "hw_frame (handle m1) hw1 hw2" "hw_fault hw2 = hw_fault hw1"
    and c: "\<forall>k. region_bytes hw2 (handle m1) (k * esz) esz
                    = (if k = j then ?e else region_bytes hw1 (handle m1) (k * esz) esz)"
    by blast
  have mv: "move_element esz i j (m, hw, t) = (m2, hw2, ?e)"
    by (simp add: move_element_def r w)
  have fr: "hw_frame (handle m) hw hw2"
    using hw_frame_trans[OF p1(5)] p2(5) p1(3) by simp
  have "\<forall>k. region_bytes hw2 (handle m) (k * esz) esz
                    = (if k = j then ?e else region_bytes hw (handle m) (k * esz) esz)"
    using c by (simp add: p1(3) region_bytes_ram[OF p1(7)])
  then show ?thesis
    using mv frame_map_ok[OF fr ok] p2 p1 fr by simp
qed

lemma erase_shift:
  assumes ok: "\<forall>n. hw_map_ok hw n" and i: "hw_inv hw" and bi: "blk_inv hw m"
    and h: "handle m \<noteq> 0" and fit: "n * esz \<le> size_b m" and le: "length t = esz"
    and pn: "pos + 1 \<le> n"
  shows "\<exists>m' hw' t'. fold (\<lambda>i. move_element esz i (i - 1)) [pos + 1..<n] (m, hw, t)
             = (m', hw', t')
           \<and> (\<forall>n. hw_map_ok hw' n) \<and> hw_inv hw' \<and> blk_inv hw' m'
           \<and> handle m' = handle m \<and> size_b m' = size_b m \<and> length t' = esz
           \<and> hw_frame (handle m) hw hw' \<and> hw_fault hw' = hw_fault hw
           \<and> (\<forall>k. region_bytes hw' (handle m) (k * esz) esz
                    = (if pos \<le> k \<and> k + 1 < n
                       then region_bytes hw (handle m) ((k + 1) * esz) esz
                       else region_bytes hw (handle m) (k * esz) esz))"
  using pn
proof (induction rule: dec_induct)
  case base
  show ?case using ok i bi le by (auto simp: hw_frame_refl)
next
  case (step q)
  then obtain m1 hw1 t1 where
    f: "fold (\<lambda>i. move_element esz i (i - 1)) [pos + 1..<q] (m, hw, t) = (m1, hw1, t1)"
    and p: "\<forall>n. hw_map_ok hw1 n" "hw_inv hw1" "blk_inv hw1 m1" "handle m1 = handle m"
      "size_b m1 = size_b m" "length t1 = esz" "hw_frame (handle m) hw hw1"
      "hw_fault hw1 = hw_fault hw"
    and c: "\<forall>k. region_bytes hw1 (handle m) (k * esz) esz
                    = (if pos \<le> k \<and> k + 1 < q
                       then region_bytes hw (handle m) ((k + 1) * esz) esz
                       else region_bytes hw (handle m) (k * esz) esz)"
    by blast
  have "Suc q \<le> n" using step.hyps by simp
  then have "Suc q * esz \<le> n * esz" by (rule mult_le_mono1)
  with fit p(5) have fq: "(q + 1) * esz \<le> size_b m1" by simp
  have q1: "q - 1 + 1 = q" using step.hyps by simp
  have "q * esz \<le> Suc q * esz" by simp
  with fq have fq1: "(q - 1 + 1) * esz \<le> size_b m1" unfolding q1 by simp
  have h1: "handle m1 \<noteq> 0" using h p(4) by simp
  from move_element_ok[OF p(1,2,3) h1 fq fq1 p(6)] obtain m2 hw2 t2 where
    mv: "move_element esz q (q - 1) (m1, hw1, t1) = (m2, hw2, t2)"
    and p2: "\<forall>n. hw_map_ok hw2 n" "hw_inv hw2" "blk_inv hw2 m2" "handle m2 = handle m1"
      "size_b m2 = size_b m1" "length t2 = esz" "hw_frame (handle m1) hw1 hw2"
      "hw_fault hw2 = hw_fault hw1"
    and c2: "\<forall>k. region_bytes hw2 (handle m1) (k * esz) esz
                    = (if k = q - 1 then region_bytes hw1 (handle m1) (q * esz) esz
                       else region_bytes hw1 (handle m1) (k * esz) esz)"
    by blast
  have up: "[pos + 1..<Suc q] = [pos + 1..<q] @ [q]" using step.hyps by simp
  have fo: "fold (\<lambda>i. move_element esz i (i - 1)) [pos + 1..<Suc q] (m, hw, t) = (m2, hw2, t2)"
    unfolding up using f mv by simp
  have fr: "hw_frame (handle m) hw hw2"
    using hw_frame_trans[OF p(7)] p2(7) p(4) by simp
  have "\<forall>k. region_bytes hw2 (handle m) (k * esz) esz
                    = (if pos \<le> k \<and> k + 1 < Suc q
                       then region_bytes hw (handle m) ((k + 1) * esz) esz
                       else region_bytes hw (handle m) (k * esz) esz)"
  proof
    fix k
    show "region_bytes hw2 (handle m) (k * esz) esz
                    = (if pos \<le> k \<and> k + 1 < Suc q
                       then region_bytes hw (handle m) ((k + 1) * esz) esz
                       else region_bytes hw (handle m) (k * esz) esz)"
    proof (cases "k = q - 1")
      case True
      then have kq: "k + 1 = q" "pos \<le> k" using step.hyps by simp_all
      have "region_bytes hw2 (handle m) (k * esz) esz = region_bytes hw1 (handle m) (q * esz) esz"
        using spec[OF c2, of k] True p(4) by simp
      also have "\<dots> = region_bytes hw (handle m) (q * esz) esz"
        using spec[OF c, of q] by simp
      finally show ?thesis using kq by simp
    next
      case False
      have "region_bytes hw2 (handle m) (k * esz) esz = region_bytes hw1 (handle m) (k * esz) esz"
        using spec[OF c2, of k] False p(4) by simp
      also have "\<dots> = (if pos \<le> k \<and> k + 1 < q
                       then region_bytes hw (handle m) ((k + 1) * esz) esz
                       else region_bytes hw (handle m) (k * esz) esz)"
        using spec[OF c, of k] by simp
      finally show ?thesis using False by auto
    qed
  qed
  then show ?case using fo p2 p fr by simp
qed

lemma insert_shift:
  assumes ok: "\<forall>n. hw_map_ok hw n" and i: "hw_inv hw" and bi: "blk_inv hw m"
    and h: "handle m \<noteq> 0" and fit: "(n + 1) * esz \<le> size_b m" and le: "length t = esz"
    and pn: "pos \<le> n"
  shows "\<exists>m' hw' t'. fold (\<lambda>i. move_element esz (i - 1) i) (rev [pos + 1..<n + 1]) (m, hw, t)
             = (m', hw', t')
           \<and> (\<forall>n. hw_map_ok hw' n) \<and> hw_inv hw' \<and> blk_inv hw' m'
           \<and> handle m' = handle m \<and> size_b m' = size_b m \<and> length t' = esz
           \<and> hw_frame (handle m) hw hw' \<and> hw_fault hw' = hw_fault hw
           \<and> (\<forall>k. region_bytes hw' (handle m) (k * esz) esz
                    = (if pos < k \<and> k \<le> n
                       then region_bytes hw (handle m) ((k - 1) * esz) esz
                       else region_bytes hw (handle m) (k * esz) esz))"
  using pn
proof (induction rule: inc_induct)
  case base
  show ?case using ok i bi le by (auto simp: hw_frame_refl)
next
  case (step q)
  then obtain m1 hw1 t1 where
    f: "fold (\<lambda>i. move_element esz (i - 1) i) (rev [Suc q + 1..<n + 1]) (m, hw, t)
          = (m1, hw1, t1)"
    and p: "\<forall>n. hw_map_ok hw1 n" "hw_inv hw1" "blk_inv hw1 m1" "handle m1 = handle m"
      "size_b m1 = size_b m" "length t1 = esz" "hw_frame (handle m) hw hw1"
      "hw_fault hw1 = hw_fault hw"
    and c: "\<forall>k. region_bytes hw1 (handle m) (k * esz) esz
                    = (if Suc q < k \<and> k \<le> n
                       then region_bytes hw (handle m) ((k - 1) * esz) esz
                       else region_bytes hw (handle m) (k * esz) esz)"
    by blast
  have "Suc (Suc q) \<le> n + 1" using step.hyps by simp
  then have "Suc (Suc q) * esz \<le> (n + 1) * esz" by (rule mult_le_mono1)
  with fit p(5) have fq1: "(Suc q + 1) * esz \<le> size_b m1" by simp
  have "(q + 1) * esz \<le> (Suc q + 1) * esz" by simp
  with fq1 have fq: "(Suc q - 1 + 1) * esz \<le> size_b m1" by simp
  have h1: "handle m1 \<noteq> 0" using h p(4) by simp
  from move_element_ok[OF p(1,2,3) h1 fq fq1 p(6)] obtain m2 hw2 t2 where
    mv: "move_element esz (Suc q - 1) (Suc q) (m1, hw1, t1) = (m2, hw2, t2)"
    and p2: "\<forall>n. hw_map_ok hw2 n" "hw_inv hw2" "blk_inv hw2 m2" "handle m2 = handle m1"
      "size_b m2 = size_b m1" "length t2 = esz" "hw_frame (handle m1) hw1 hw2"
      "hw_fault hw2 = hw_fault hw1"
    and c2: "\<forall>k. region_bytes hw2 (handle m1) (k * esz) esz
                    = (if k = Suc q then region_bytes hw1 (handle m1) ((Suc q - 1) * esz) esz
                       else region_bytes hw1 (handle m1) (k * esz) esz)"
    by blast
  have up: "[q + 1..<n + 1] = Suc q # [Suc q + 1..<n + 1]"
    using step.hyps by (simp add: upt_conv_Cons)
  have fo: "fold (\<lambda>i. move_element esz (i - 1) i) (rev [q + 1..<n + 1]) (m, hw, t)
            = (m2, hw2, t2)"
    unfolding up using f mv by simp
  have fr: "hw_frame (handle m) hw hw2"
    using hw_frame_trans[OF p(7)] p2(7) p(4) by simp
  have "\<forall>k. region_bytes hw2 (handle m) (k * esz) esz
                    = (if q < k \<and> k \<le> n
                       then region_bytes hw (handle m) ((k - 1) * esz) esz
                       else region_bytes hw (handle m) (k * esz) esz)"
  proof
    fix k
    show "region_bytes hw2 (handle m) (k * esz) esz
                    = (if q < k \<and> k \<le> n
                       then region_bytes hw (handle m) ((k - 1) * esz) esz
                       else region_bytes hw (handle m) (k * esz) esz)"
    proof (cases "k = Suc q")
      case True
      have "region_bytes hw2 (handle m) (k * esz) esz = region_bytes hw1 (handle m) (q * esz) esz"
        using spec[OF c2, of k] True p(4) by simp
      also have "\<dots> = region_bytes hw (handle m) (q * esz) esz"
        using spec[OF c, of q] by simp
      finally show ?thesis using True step.hyps by simp
    next
      case False
      have "region_bytes hw2 (handle m) (k * esz) esz = region_bytes hw1 (handle m) (k * esz) esz"
        using spec[OF c2, of k] False p(4) by simp
      also have "\<dots> = (if Suc q < k \<and> k \<le> n
                       then region_bytes hw (handle m) ((k - 1) * esz) esz
                       else region_bytes hw (handle m) (k * esz) esz)"
        using spec[OF c, of k] by simp
      finally show ?thesis using False by auto
    qed
  qed
  then show ?case using fo p2 p fr by simp
qed

lemma vec_inv_fit:
  assumes "vec_inv esz hw v" "n \<le> element_capacity v"
  shows "n * esz \<le> size_b (memory v)"
proof -
  from assms have "n \<le> size_b (memory v) div esz" by (simp add: vec_inv_def)
  then have "n * esz \<le> (size_b (memory v) div esz) * esz" by (rule mult_le_mono1)
  also have "\<dots> \<le> size_b (memory v)" by simp
  finally show ?thesis .
qed

lemma vec_inv_handle:
  assumes "vec_inv esz hw v" "0 < element_capacity v"
  shows "handle (memory v) \<noteq> 0"
proof
  assume "handle (memory v) = 0"
  with assms(1) have "size_b (memory v) = 0" by (simp add: vec_inv_def)
  with assms show False by (simp add: vec_inv_def)
qed

lemma at_pos_value:
  assumes v: "vec_inv esz hw v" and ok: "\<forall>n. hw_map_ok hw n"
    and i: "i < element_count v" and le: "length t = esz"
  shows "access_value (at_pos esz v hw t i) = Inr (contents esz hw v ! i)"
proof -
  from v i have ic: "i + 1 \<le> element_capacity v" by (simp add: vec_inv_def)
  from v have hi: "hw_inv hw" and bi: "blk_inv hw (memory v)" by (simp_all add: vec_inv_def)
  have h: "handle (memory v) \<noteq> 0" by (rule vec_inv_handle[OF v]) (use ic in simp)
  from elem_read[OF ok hi bi h vec_inv_fit[OF v ic] le] obtain m' hw' where
    "read (memory v) hw t (size_t (i * esz)) esz
       = (m', hw', region_bytes hw (handle (memory v)) (i * esz) esz, esz)" by blast
  then show ?thesis using i
    by (simp add: at_pos_def access_value_def contents_def element_at_def)
qed

lemma erase_spec:
  assumes "vec_inv esz hw v" "\<forall>n. hw_map_ok hw n"
  shows "case erase esz v hw pos of (v', hw') \<Rightarrow>
       (element_count v \<le> pos \<longrightarrow> v' = v \<and> hw' = hw)
     \<and> (pos < element_count v \<longrightarrow>
          size_v v' = size_v v - 1 \<and> capacity v' = capacity v
        \<and> contents esz hw' v'
            = take pos (contents esz hw v) @ drop (pos + 1) (contents esz hw v)
        \<and> vec_inv esz hw' v')"
proof (cases "element_count v \<le> pos")
  case True
  then show ?thesis by (simp add: erase_def)
next
  case False
  let ?n = "element_count v"
  let ?h = "handle (memory v)"
  from False have pn: "pos + 1 \<le> ?n" by simp
  from assms(1) have hi: "hw_inv hw" and bi: "blk_inv hw (memory v)" and e0: "0 < esz"
    and cc: "?n \<le> element_capacity v"
    and cap: "element_capacity v = size_b (memory v) div esz"
    by (simp_all add: vec_inv_def)
  have h: "?h \<noteq> 0" by (rule vec_inv_handle[OF assms(1)]) (use cc pn in simp)
  have fit: "?n * esz \<le> size_b (memory v)" by (rule vec_inv_fit[OF assms(1) cc])
  from erase_shift[OF assms(2) hi bi h fit _ pn, of "replicate esz 0"] obtain m' hw' t' where
    f: "fold (\<lambda>i. move_element esz i (i - 1)) [pos + 1..<?n] (memory v, hw, replicate esz 0)
          = (m', hw', t')"
    and p: "hw_inv hw'" "blk_inv hw' m'" "handle m' = ?h" "size_b m' = size_b (memory v)"
    and c: "\<forall>k. region_bytes hw' ?h (k * esz) esz
                    = (if pos \<le> k \<and> k + 1 < ?n
                       then region_bytes hw ?h ((k + 1) * esz) esz
                       else region_bytes hw ?h (k * esz) esz)"
    by auto
  let ?v' = "v\<lparr>memory := m', element_count := ?n - 1\<rparr>"
  have er: "erase esz v hw pos = (?v', hw')"
    using False f by (simp add: erase_def)
  have inv: "vec_inv esz hw' ?v'"
    using p e0 cc cap h by (simp add: vec_inv_def)
  have "contents esz hw' ?v'
          = take pos (contents esz hw v) @ drop (pos + 1) (contents esz hw v)"
  proof (rule nth_equalityI)
    show "length (contents esz hw' ?v')
          = length (take pos (contents esz hw v) @ drop (pos + 1) (contents esz hw v))"
      using pn by (simp add: contents_def)
  next
    fix k assume "k < length (contents esz hw' ?v')"
    then have k: "k < ?n - 1" by (simp add: contents_def)
    have l: "contents esz hw' ?v' ! k = region_bytes hw' ?h (k * esz) esz"
      using k by (simp add: contents_def element_at_def p)
    show "contents esz hw' ?v' ! k
          = (take pos (contents esz hw v) @ drop (pos + 1) (contents esz hw v)) ! k"
    proof (cases "k < pos")
      case True
      then show ?thesis unfolding l using k pn spec[OF c, of k]
        by (simp add: nth_append contents_def element_at_def)
    next
      case False
      from k have "Suc k < element_count v" by simp
      with False show ?thesis unfolding l using k pn spec[OF c, of k]
        by (simp add: nth_append contents_def element_at_def)
    qed
  qed
  then show ?thesis
    unfolding er using False inv by (simp add: size_v_def capacity_def)
qed

lemma ex_vec1_inv: "vec_inv 1 ex_hw1 ex_vec1"
  using ex_hw1_inv ex_blk1_inv by (simp add: vec_inv_def ex_vec1_def ex_blk1_def)

lemma frame_oracles:
  "hw_frame h hw hw' \<Longrightarrow> hw_alloc_ok hw' = hw_alloc_ok hw \<and> hw_map_ok hw' = hw_map_ok hw"
  by (simp add: hw_frame_def)

lemma frame_ram_other:
  "hw_frame h hw hw' \<Longrightarrow> h2 \<noteq> h \<Longrightarrow> hw_ram hw' h2 = hw_ram hw h2"
  by (simp add: hw_frame_def)

lemma copy_element_spec:
  assumes i: "hw_inv hw" and bf: "blk_inv hw f" and bd: "blk_inv hw d"
    and ne: "handle f \<noteq> handle d"
  shows "\<exists>f' d' hw' t'. copy_element esz k (f, d, hw, t) = (f', d', hw', t')
      \<and> hw_inv hw' \<and> blk_inv hw' f' \<and> blk_inv hw' d'
      \<and> handle f' = handle f \<and> size_b f' = size_b f
      \<and> handle d' = handle d \<and> size_b d' = size_b d
      \<and> hw_alloc_ok hw' = hw_alloc_ok hw \<and> hw_map_ok hw' = hw_map_ok hw
      \<and> hw_ram hw' (handle f) = hw_ram hw (handle f)
      \<and> ((\<forall>n. hw_map_ok hw n) \<and> handle f \<noteq> 0 \<and> handle d \<noteq> 0
            \<and> (k + 1) * esz \<le> size_b f \<and> (k + 1) * esz \<le> size_b d \<and> length t = esz \<longrightarrow>
          length t' = esz
          \<and> (\<forall>j. region_bytes hw' (handle d) (j * esz) esz
                   = (if j = k then region_bytes hw (handle f) (k * esz) esz
                      else region_bytes hw (handle d) (j * esz) esz)))"
proof -
  obtain f1 hw1 t1 n1 where r: "read f hw t (size_t (k * esz)) esz = (f1, hw1, t1, n1)"
    by (cases "read f hw t (size_t (k * esz)) esz")
  from read_keeps[OF i bf, of t "size_t (k * esz)" esz] r
  have p1: "hw_inv hw1" "blk_inv hw1 f1" "handle f1 = handle f" "size_b f1 = size_b f"
    "hw_frame (handle f) hw hw1" "hw_ram hw1 = hw_ram hw" by simp_all
  have bd1: "blk_inv hw1 d" by (rule blk_inv_frame[OF p1(5) bd]) (use ne in simp)
  obtain d1 hw2 n2 where w: "write_b d hw1 t1 (size_t (k * esz)) esz = (d1, hw2, n2)"
    by (cases "write_b d hw1 t1 (size_t (k * esz)) esz")
  from write_b_keeps[OF p1(1) bd1, of t1 "size_t (k * esz)" esz] w
  have p2: "hw_inv hw2" "blk_inv hw2 d1" "handle d1 = handle d" "size_b d1 = size_b d"
    "hw_frame (handle d) hw1 hw2" by simp_all
  have bf2: "blk_inv hw2 f1" by (rule blk_inv_frame[OF p2(5) p1(2)]) (use ne p1(3) in simp)
  have ce: "copy_element esz k (f, d, hw, t) = (f1, d1, hw2, t1)"
    by (simp add: copy_element_def r w)
  have or: "hw_alloc_ok hw2 = hw_alloc_ok hw" "hw_map_ok hw2 = hw_map_ok hw"
    using frame_oracles[OF p1(5)] frame_oracles[OF p2(5)] by simp_all
  have rf: "hw_ram hw2 (handle f) = hw_ram hw (handle f)"
    using frame_ram_other[OF p2(5) ne] p1(6) by simp
  have succ: "length t1 = esz
          \<and> (\<forall>j. region_bytes hw2 (handle d) (j * esz) esz
                   = (if j = k then region_bytes hw (handle f) (k * esz) esz
                      else region_bytes hw (handle d) (j * esz) esz))"
    if a: "(\<forall>n. hw_map_ok hw n) \<and> handle f \<noteq> 0 \<and> handle d \<noteq> 0
            \<and> (k + 1) * esz \<le> size_b f \<and> (k + 1) * esz \<le> size_b d \<and> length t = esz"
  proof -
    let ?e = "region_bytes hw (handle f) (k * esz) esz"
    from a have ok: "\<forall>n. hw_map_ok hw n" and hf: "handle f \<noteq> 0" and hd: "handle d \<noteq> 0"
      and ff: "(k + 1) * esz \<le> size_b f" and fd: "(k + 1) * esz \<le> size_b d"
      and le: "length t = esz" by simp_all
    from elem_read[OF ok i bf hf ff le] r have t1: "t1 = ?e" by auto
    have ok1: "\<forall>n. hw_map_ok hw1 n" by (rule frame_map_ok[OF p1(5) ok])
    have le1: "length t1 = esz" by (simp add: t1)
    from elem_write[OF ok1 p1(1) bd1 hd fd le1] w
    have "\<forall>j. region_bytes hw2 (handle d) (j * esz) esz
                    = (if j = k then t1 else region_bytes hw1 (handle d) (j * esz) esz)"
      by auto
    then show ?thesis using le1 t1 by (simp add: region_bytes_ram[OF p1(6)])
  qed
  show ?thesis
    unfolding ce using p1 p2 bf2 or rf succ by simp
qed

lemma copy_fold_spec:
  assumes i: "hw_inv hw" and bf: "blk_inv hw f" and bd: "blk_inv hw d"
    and ne: "handle f \<noteq> handle d"
  shows "\<exists>f' d' hw' t'. fold (copy_element esz) [0..<n] (f, d, hw, t) = (f', d', hw', t')
      \<and> hw_inv hw' \<and> blk_inv hw' f' \<and> blk_inv hw' d'
      \<and> handle f' = handle f \<and> size_b f' = size_b f
      \<and> handle d' = handle d \<and> size_b d' = size_b d
      \<and> hw_alloc_ok hw' = hw_alloc_ok hw \<and> hw_map_ok hw' = hw_map_ok hw
      \<and> hw_ram hw' (handle f) = hw_ram hw (handle f)
      \<and> ((\<forall>n. hw_map_ok hw n) \<and> handle f \<noteq> 0 \<and> handle d \<noteq> 0
            \<and> n * esz \<le> size_b f \<and> n * esz \<le> size_b d \<and> length t = esz \<longrightarrow>
          length t' = esz
          \<and> (\<forall>j. region_bytes hw' (handle d) (j * esz) esz
                   = (if j < n then region_bytes hw (handle f) (j * esz) esz
                      else region_bytes hw (handle d) (j * esz) esz)))"
proof (induction n)
  case 0
  show ?case using i bf bd by simp
next
  case (Suc n)
  then obtain f1 d1 hw1 t1 where
    fo: "fold (copy_element esz) [0..<n] (f, d, hw, t) = (f1, d1, hw1, t1)"
    and p: "hw_inv hw1" "blk_inv hw1 f1" "blk_inv hw1 d1"
      "handle f1 = handle f" "size_b f1 = size_b f" "handle d1 = handle d" "size_b d1 = size_b d"
      "hw_alloc_ok hw1 = hw_alloc_ok hw" "hw_map_ok hw1 = hw_map_ok hw"
      "hw_ram hw1 (handle f) = hw_ram hw (handle f)"
    and s: "(\<forall>n. hw_map_ok hw n) \<and> handle f \<noteq> 0 \<and> handle d \<noteq> 0
            \<and> n * esz \<le> size_b f \<and> n * esz \<le> size_b d \<and> length t = esz \<longrightarrow>
          length t1 = esz
          \<and> (\<forall>j. region_bytes hw1 (handle d) (j * esz) esz
                   = (if j < n then region_bytes hw (handle f) (j * esz) esz
                      else region_bytes hw (handle d) (j * esz) esz))"
    by blast
  have ne1: "handle f1 \<noteq> handle d1" using ne p by simp
  from copy_element_spec[OF p(1,2,3) ne1, of esz n t1] obtain f2 d2 hw2 t2 where
    ce: "copy_element esz n (f1, d1, hw1, t1) = (f2, d2, hw2, t2)"
    and p2: "hw_inv hw2" "blk_inv hw2 f2" "blk_inv hw2 d2"
      "handle f2 = handle f1" "size_b f2 = size_b f1" "handle d2 = handle d1"
      "size_b d2 = size_b d1"
      "hw_alloc_ok hw2 = hw_alloc_ok hw1" "hw_map_ok hw2 = hw_map_ok hw1"
      "hw_ram hw2 (handle f1) = hw_ram hw1 (handle f1)"
    and s2: "(\<forall>n. hw_map_ok hw1 n) \<and> handle f1 \<noteq> 0 \<and> handle d1 \<noteq> 0
            \<and> (n + 1) * esz \<le> size_b f1 \<and> (n + 1) * esz \<le> size_b d1 \<and> length t1 = esz \<longrightarrow>
          length t2 = esz
          \<and> (\<forall>j. region_bytes hw2 (handle d1) (j * esz) esz
                   = (if j = n then region_bytes hw1 (handle f1) (n * esz) esz
                      else region_bytes hw1 (handle d1) (j * esz) esz))"
    by blast
  have fo2: "fold (copy_element esz) [0..<Suc n] (f, d, hw, t) = (f2, d2, hw2, t2)"
    by (simp add: fo ce)
  have succ: "length t2 = esz
          \<and> (\<forall>j. region_bytes hw2 (handle d) (j * esz) esz
                   = (if j < Suc n then region_bytes hw (handle f) (j * esz) esz
                      else region_bytes hw (handle d) (j * esz) esz))"
    if a: "(\<forall>n. hw_map_ok hw n) \<and> handle f \<noteq> 0 \<and> handle d \<noteq> 0
            \<and> Suc n * esz \<le> size_b f \<and> Suc n * esz \<le> size_b d \<and> length t = esz"
  proof -
    have "n * esz \<le> Suc n * esz" by simp
    with a s have l1: "length t1 = esz"
      and c1: "\<forall>j. region_bytes hw1 (handle d) (j * esz) esz
                   = (if j < n then region_bytes hw (handle f) (j * esz) esz
                      else region_bytes hw (handle d) (j * esz) esz)"
      by auto
    from a p l1 s2 have l2: "length t2 = esz"
      and c2: "\<forall>j. region_bytes hw2 (handle d) (j * esz) esz
                   = (if j = n then region_bytes hw1 (handle f) (n * esz) esz
                      else region_bytes hw1 (handle d) (j * esz) esz)"
      by auto
    have ef: "region_bytes hw1 (handle f) (n * esz) esz = region_bytes hw (handle f) (n * esz) esz"
      by (rule region_bytes_ram_h[OF p(10)])
    have "\<forall>j. region_bytes hw2 (handle d) (j * esz) esz
                   = (if j < Suc n then region_bytes hw (handle f) (j * esz) esz
                      else region_bytes hw (handle d) (j * esz) esz)"
    proof
      fix j
      show "region_bytes hw2 (handle d) (j * esz) esz
                   = (if j < Suc n then region_bytes hw (handle f) (j * esz) esz
                      else region_bytes hw (handle d) (j * esz) esz)"
        using spec[OF c2, of j] spec[OF c1, of j] ef by (cases "j = n") auto
    qed
    with l2 show ?thesis by simp
  qed
  show ?case
    unfolding fo2 using p p2 succ by simp
qed

lemma move_assign_spec:
  assumes i: "hw_inv hw" and bo: "blk_inv hw old" and bn: "blk_inv hw new"
    and ne: "handle old \<noteq> handle new"
  shows "\<exists>reset hw'. move_assign old new hw = (new, reset, hw')
      \<and> handle reset = 0 \<and> hw_inv hw' \<and> blk_inv hw' new
      \<and> hw_ram hw' = hw_ram hw
      \<and> hw_alloc_ok hw' = hw_alloc_ok hw \<and> hw_map_ok hw' = hw_map_ok hw"
proof -
  obtain t1 hw1 where f: "free old hw = (t1, hw1)" by (cases "free old hw")
  from free_spec[OF i bo] f
  have p: "hw_inv hw1" "hw_ram hw1 = hw_ram hw" "hw_map_ok hw1 = hw_map_ok hw"
    "hw_alloc_ok hw1 = hw_alloc_ok hw"
    and o: "\<forall>b2. blk_inv hw b2 \<and> handle b2 \<noteq> handle old \<longrightarrow> blk_inv hw1 b2"
    by simp_all
  from o bn ne have bn1: "blk_inv hw1 new" by simp
  have eq: "t1\<lparr>handle := handle new, range_h := range_h new, mapped_ptr := mapped_ptr new,
              size_b := size_b new, current_mapped_block := current_mapped_block new\<rparr> = new"
    by (cases t1, cases new) simp
  show ?thesis
    using p bn1 by (simp add: move_assign_def f eq)
qed

lemma free_null: "handle b = 0 \<Longrightarrow> free b hw = (b, hw)"
  by (simp add: free_def)

lemma round_up_blksz_ge:
  assumes "n + ESP_HIMEM_BLKSZ - 1 \<le> SIZE_MAX"
  shows "n \<le> round_up_blksz n"
  by (rule round_up_blksz_exact(2)[OF assms])

lemma reallocate_spec:
  assumes v: "vec_inv esz hw v" and gr: "element_capacity v < new_capacity"
    and al: "hw_alloc_ok hw (hw_alloc_calls hw)"
    and nov: "max new_capacity min_elements * esz + ESP_HIMEM_BLKSZ - 1 \<le> SIZE_MAX"
  shows "\<exists>v' hw'. reallocate esz v hw new_capacity = (v', hw', True)
      \<and> vec_inv esz hw' v' \<and> element_count v' = element_count v
      \<and> size_b (memory v') = round_up_blksz (max new_capacity min_elements * esz)
      \<and> handle (memory v') \<noteq> 0
      \<and> max new_capacity min_elements \<le> element_capacity v'
      \<and> hw_alloc_ok hw' = hw_alloc_ok hw \<and> hw_map_ok hw' = hw_map_ok hw
      \<and> ((\<forall>n. hw_map_ok hw n) \<longrightarrow> contents esz hw' v' = contents esz hw v)"
proof -
  let ?nc = "max new_capacity min_elements"
  let ?n = "element_count v"
  from v have i: "hw_inv hw" and bm: "blk_inv hw (memory v)" and e0: "0 < esz"
    and cc: "?n \<le> element_capacity v" by (simp_all add: vec_inv_def)
  have "?nc * esz \<le> SIZE_MAX" using nov by (simp add: ESP_HIMEM_BLKSZ_def)
  then have bytes: "calculate_size_bytes esz ?nc = ?nc * esz"
    by (simp add: calculate_size_bytes_def size_t_id)
  obtain nm hw1 ok where a: "allocate HimemBlock hw (?nc * esz) = (nm, hw1, ok)"
    by (cases "allocate HimemBlock hw (?nc * esz)")
  have h0: "handle HimemBlock = 0" by (simp add: HimemBlock_def)
  from allocate_spec[OF i HimemBlock_inv[OF i], of "?nc * esz"] a al h0
  have ok: "ok" and i1: "hw_inv hw1" and bn1: "blk_inv hw1 nm"
    and oth: "\<forall>b2. blk_inv hw b2 \<longrightarrow> blk_inv hw1 b2"
    and r1: "hw_ram hw1 = hw_ram hw" and or1: "hw_map_ok hw1 = hw_map_ok hw"
      "hw_alloc_ok hw1 = hw_alloc_ok hw"
    and sn: "size_b nm = round_up_blksz (?nc * esz)" and hn: "handle nm = hw_next hw"
    by simp_all
  from oth bm have bm1: "blk_inv hw1 (memory v)" by simp
  have hpos: "handle nm \<noteq> 0" using hn i by (simp add: hw_inv_def)
  have ne: "handle (memory v) \<noteq> handle nm"
  proof (cases "handle (memory v) = 0")
    case True
    then show ?thesis using hpos by simp
  next
    case False
    with bm have "map_of (hw_regions hw) (handle (memory v)) = Some (size_b (memory v))"
      by (simp add: blk_inv_def)
    from handle_below_next[OF i this] hn show ?thesis by simp
  qed
  let ?t = "replicate esz (0 :: byte)"
  from copy_fold_spec[OF i1 bm1 bn1 ne, of esz ?n ?t] obtain old1 new1 hw2 temp where
    fo: "fold (copy_element esz) [0..<?n] (memory v, nm, hw1, ?t) = (old1, new1, hw2, temp)"
    and p2: "hw_inv hw2" "blk_inv hw2 old1" "blk_inv hw2 new1"
      "handle old1 = handle (memory v)" "handle new1 = handle nm" "size_b new1 = size_b nm"
      "hw_alloc_ok hw2 = hw_alloc_ok hw1" "hw_map_ok hw2 = hw_map_ok hw1"
    and s2: "(\<forall>n. hw_map_ok hw1 n) \<and> handle (memory v) \<noteq> 0 \<and> handle nm \<noteq> 0
            \<and> ?n * esz \<le> size_b (memory v) \<and> ?n * esz \<le> size_b nm \<and> length ?t = esz \<longrightarrow>
          (\<forall>j. region_bytes hw2 (handle nm) (j * esz) esz
                   = (if j < ?n then region_bytes hw1 (handle (memory v)) (j * esz) esz
                      else region_bytes hw1 (handle nm) (j * esz) esz))"
    by blast
  have copy: "(if 0 < ?n then fold (copy_element esz) [0..<?n] (memory v, nm, hw1, ?t)
               else (memory v, nm, hw1, ?t)) = (old1, new1, hw2, temp)"
    using fo by (cases "?n = 0") simp_all
  have ne2: "handle old1 \<noteq> handle new1" using ne p2 by simp
  from move_assign_spec[OF p2(1,2,3) ne2] obtain reset hw3 where
    ma: "move_assign old1 new1 hw2 = (new1, reset, hw3)" and hr: "handle reset = 0"
    and p3: "hw_inv hw3" "blk_inv hw3 new1" "hw_ram hw3 = hw_ram hw2"
      "hw_alloc_ok hw3 = hw_alloc_ok hw2" "hw_map_ok hw3 = hw_map_ok hw2"
    by blast
  let ?v' = "v\<lparr>memory := new1, element_capacity := size_b new1 div esz\<rparr>"
  have re: "reallocate esz v hw new_capacity = (?v', hw3, True)"
    using gr ok
    by (simp add: reallocate_def bytes a copy ma free_null[OF hr] get_size_def Let_def
        del: fold_simps)
  have ge: "?nc * esz \<le> size_b new1"
    using round_up_blksz_ge[OF nov] sn p2(6) by simp
  have capge: "?nc \<le> size_b new1 div esz"
  proof -
    have "?nc = (?nc * esz) div esz" using e0 by simp
    also have "\<dots> \<le> size_b new1 div esz" using ge by (rule div_le_mono)
    finally show ?thesis .
  qed
  have cnt: "?n \<le> size_b new1 div esz" using cc gr capge by simp
  have inv: "vec_inv esz hw3 ?v'"
    using e0 p3 cnt hpos p2(5) by (simp add: vec_inv_def)
  have cont: "contents esz hw3 ?v' = contents esz hw v" if mok: "\<forall>n. hw_map_ok hw n"
  proof (cases "?n = 0")
    case True
    then show ?thesis by (simp add: contents_def)
  next
    case False
    have hm: "handle (memory v) \<noteq> 0"
      by (rule vec_inv_handle[OF v]) (use False cc in simp)
    have f1: "?n * esz \<le> size_b (memory v)" by (rule vec_inv_fit[OF v cc])
    have "?n * esz \<le> (size_b new1 div esz) * esz" using cnt by (rule mult_le_mono1)
    also have "\<dots> \<le> size_b new1" by simp
    finally have f2: "?n * esz \<le> size_b nm" using p2(6) by simp
    from s2 mok or1 hm hpos f1 f2
    have c: "\<forall>j. region_bytes hw2 (handle nm) (j * esz) esz
                   = (if j < ?n then region_bytes hw1 (handle (memory v)) (j * esz) esz
                      else region_bytes hw1 (handle nm) (j * esz) esz)"
      by simp
    show ?thesis
    proof (rule nth_equalityI)
      show "length (contents esz hw3 ?v') = length (contents esz hw v)"
        by (simp add: contents_def)
    next
      fix j assume "j < length (contents esz hw3 ?v')"
      then have j: "j < ?n" by (simp add: contents_def)
      then show "contents esz hw3 ?v' ! j = contents esz hw v ! j"
        using spec[OF c, of j]
        by (simp add: contents_def element_at_def p2(5) region_bytes_ram[OF p3(3)]
            region_bytes_ram[OF r1])
    qed
  qed
  show ?thesis
    unfolding re using inv sn p2 p3 or1 hpos capge cont by simp
qed

lemma insert_tail:
  assumes v: "vec_inv esz hw v" and ok: "\<forall>n. hw_map_ok hw n" and le: "length val = esz"
    and pn: "pos \<le> element_count v" and room: "element_count v + 1 \<le> element_capacity v"
  shows "\<exists>m hw2 temp m1 hw3.
      fold (\<lambda>i. move_element esz (i - 1) i) (rev [pos + 1..<element_count v + 1])
        (memory v, hw, replicate esz 0) = (m, hw2, temp)
      \<and> write_b m hw2 val (size_t (pos * esz)) esz = (m1, hw3, esz)
      \<and> size_t (element_count v + 1) = element_count v + 1
      \<and> vec_inv esz hw3 (v\<lparr>memory := m1, element_count := element_count v + 1\<rparr>)
      \<and> (\<forall>n. hw_map_ok hw3 n) \<and> hw_alloc_ok hw3 = hw_alloc_ok hw
      \<and> contents esz hw3 (v\<lparr>memory := m1, element_count := element_count v + 1\<rparr>)
          = take pos (contents esz hw v) @ val # drop pos (contents esz hw v)"
proof -
  let ?n = "element_count v"
  let ?h = "handle (memory v)"
  from v have hi: "hw_inv hw" and bi: "blk_inv hw (memory v)" and e0: "0 < esz"
    and cap: "element_capacity v = size_b (memory v) div esz"
    by (simp_all add: vec_inv_def)
  have h: "?h \<noteq> 0" by (rule vec_inv_handle[OF v]) (use room in simp)
  have fit: "(?n + 1) * esz \<le> size_b (memory v)" by (rule vec_inv_fit[OF v room])
  from insert_shift[OF ok hi bi h fit _ pn, of "replicate esz 0"] obtain m hw2 temp where
    f: "fold (\<lambda>i. move_element esz (i - 1) i) (rev [pos + 1..<?n + 1])
          (memory v, hw, replicate esz 0) = (m, hw2, temp)"
    and p: "\<forall>n. hw_map_ok hw2 n" "hw_inv hw2" "blk_inv hw2 m" "handle m = ?h"
      "size_b m = size_b (memory v)" "hw_frame ?h hw hw2"
    and c: "\<forall>k. region_bytes hw2 ?h (k * esz) esz
                    = (if pos < k \<and> k \<le> ?n
                       then region_bytes hw ?h ((k - 1) * esz) esz
                       else region_bytes hw ?h (k * esz) esz)"
    by auto
  have "pos + 1 \<le> ?n + 1" using pn by simp
  then have "(pos + 1) * esz \<le> (?n + 1) * esz" by (rule mult_le_mono1)
  from order_trans[OF this fit] have fp: "(pos + 1) * esz \<le> size_b m" unfolding p(5) .
  have hm: "handle m \<noteq> 0" using h p(4) by simp
  from elem_write[OF p(1,2,3) hm fp le] obtain m1 hw3 where
    w: "write_b m hw2 val (size_t (pos * esz)) esz = (m1, hw3, esz)"
    and p3: "hw_inv hw3" "blk_inv hw3 m1" "handle m1 = handle m" "size_b m1 = size_b m"
      "hw_frame (handle m) hw2 hw3"
    and c3: "\<forall>j. region_bytes hw3 (handle m) (j * esz) esz
                    = (if j = pos then val else region_bytes hw2 (handle m) (j * esz) esz)"
    by blast
  from bi have "size_b (memory v) \<le> SIZE_MAX" by (simp add: blk_inv_def)
  moreover have "?n + 1 \<le> (?n + 1) * esz"
  proof -
    have "(?n + 1) * 1 \<le> (?n + 1) * esz" using e0 by (intro mult_le_mono2) simp
    then show ?thesis by simp
  qed
  ultimately have "?n + 1 \<le> SIZE_MAX" using fit by linarith
  then have st: "size_t (?n + 1) = ?n + 1" by (rule size_t_id)
  let ?v' = "v\<lparr>memory := m1, element_count := ?n + 1\<rparr>"
  have inv: "vec_inv esz hw3 ?v'"
    using e0 p3 p room cap h by (simp add: vec_inv_def)
  have fr: "hw_frame ?h hw hw3" using hw_frame_trans[OF p(6)] p3(5) p(4) by simp
  have or: "\<forall>n. hw_map_ok hw3 n" "hw_alloc_ok hw3 = hw_alloc_ok hw"
    using frame_map_ok[OF fr ok] frame_oracles[OF fr] by simp_all
  have "contents esz hw3 ?v' = take pos (contents esz hw v) @ val # drop pos (contents esz hw v)"
  proof (rule nth_equalityI)
    show "length (contents esz hw3 ?v')
          = length (take pos (contents esz hw v) @ val # drop pos (contents esz hw v))"
      using pn by (simp add: contents_def)
  next
    fix k assume "k < length (contents esz hw3 ?v')"
    then have k: "k < ?n + 1" by (simp add: contents_def)
    have l: "contents esz hw3 ?v' ! k = region_bytes hw3 ?h (k * esz) esz"
      using k by (simp add: contents_def element_at_def p3 p del: upt_Suc)
    have lt: "length (contents esz hw v) = ?n" "min ?n pos = pos"
      using pn by (simp_all add: contents_def)
    show "contents esz hw3 ?v' ! k
          = (take pos (contents esz hw v) @ val # drop pos (contents esz hw v)) ! k"
    proof (cases "k < pos")
      case True
      then show ?thesis unfolding l using pn spec[OF c3, of k] spec[OF c, of k] p(4)
        by (simp add: nth_append contents_def element_at_def)
    next
      case False
      show ?thesis
      proof (cases "k = pos")
        case True
        then show ?thesis unfolding l using spec[OF c3, of k] p(4)
          by (simp add: nth_append lt)
      next
        case ne: False
        with False have gt: "pos < k" by simp
        then obtain d where d: "k - pos = Suc d" "k - 1 = pos + d"
          by (cases "k - pos") auto
        have "pos + d < ?n" using k d gt by simp
        then show ?thesis unfolding l using gt k pn d spec[OF c3, of k] spec[OF c, of k] p(4)
          by (simp add: nth_append lt contents_def element_at_def)
      qed
    qed
  qed
  with f w st inv or show ?thesis by blast
qed

lemma grow_capacity_eq:
  assumes "max (2 * element_capacity v) min_elements * esz + ESP_HIMEM_BLKSZ - 1 \<le> SIZE_MAX"
    "0 < esz"
  shows "max (grow_capacity v) min_elements = max (2 * element_capacity v) min_elements"
    and "element_capacity v < grow_capacity v"
proof -
  let ?c = "element_capacity v"
  have "2 * ?c \<le> max (2 * ?c) min_elements * 1" by simp
  also have "\<dots> \<le> max (2 * ?c) min_elements * esz"
    using assms(2) by (intro mult_le_mono2) simp
  also have "\<dots> \<le> SIZE_MAX" using assms(1) by (simp add: ESP_HIMEM_BLKSZ_def)
  finally have st: "size_t (?c * 2) = 2 * ?c" by (simp add: size_t_id mult.commute)
  show "max (grow_capacity v) min_elements = max (2 * ?c) min_elements"
    by (simp add: grow_capacity_def st min_elements_def)
  show "?c < grow_capacity v"
    by (simp add: grow_capacity_def st min_elements_def)
qed

lemma insert_spec:
  assumes v: "vec_inv esz hw v" and ok: "\<forall>n. hw_map_ok hw n" and le: "length val = esz"
    and gr: "element_capacity v \<le> element_count v \<Longrightarrow>
               hw_alloc_ok hw (hw_alloc_calls hw)
               \<and> max (2 * element_capacity v) min_elements * esz + ESP_HIMEM_BLKSZ - 1
                   \<le> SIZE_MAX"
  shows "case insert_at esz v hw pos val of (v', hw') \<Rightarrow>
       (element_count v < pos \<longrightarrow> v' = v \<and> hw' = hw)
     \<and> (pos \<le> element_count v \<longrightarrow>
          size_v v' = size_v v + 1
        \<and> contents esz hw' v'
            = take pos (contents esz hw v) @ val # drop pos (contents esz hw v)
        \<and> vec_inv esz hw' v'
        \<and> (\<forall>t. length t = esz \<longrightarrow> access_value (at_pos esz v' hw' t pos) = Inr val))"
proof (cases "element_count v < pos")
  case True
  then show ?thesis by (simp add: insert_at_def)
next
  case False
  then have pn: "pos \<le> element_count v" by simp
  from v have e0: "0 < esz" and cc: "element_count v \<le> element_capacity v"
    by (simp_all add: vec_inv_def)
  have "\<exists>v1 hw1.
      (if element_capacity v \<le> element_count v then reallocate esz v hw (grow_capacity v)
       else (v, hw, True)) = (v1, hw1, True)
      \<and> vec_inv esz hw1 v1 \<and> (\<forall>n. hw_map_ok hw1 n)
      \<and> element_count v1 = element_count v
      \<and> element_count v + 1 \<le> element_capacity v1
      \<and> contents esz hw1 v1 = contents esz hw v"
  proof (cases "element_capacity v \<le> element_count v")
    case full: True
    from gr[OF full] have al: "hw_alloc_ok hw (hw_alloc_calls hw)"
      and nov: "max (2 * element_capacity v) min_elements * esz + ESP_HIMEM_BLKSZ - 1
                   \<le> SIZE_MAX" by simp_all
    note g = grow_capacity_eq[OF nov e0]
    from reallocate_spec[OF v g(2) al] nov obtain v1 hw1 where
      r: "reallocate esz v hw (grow_capacity v) = (v1, hw1, True)"
      and p: "vec_inv esz hw1 v1" "element_count v1 = element_count v"
        "max (grow_capacity v) min_elements \<le> element_capacity v1"
        "hw_map_ok hw1 = hw_map_ok hw"
        "(\<forall>n. hw_map_ok hw n) \<longrightarrow> contents esz hw1 v1 = contents esz hw v"
      unfolding g(1) by blast
    have "element_count v + 1 \<le> max (2 * element_capacity v) min_elements"
      using full cc by (simp add: min_elements_def max_def)
    from order_trans[OF this p(3)[unfolded g(1)]]
    have "element_count v + 1 \<le> element_capacity v1" .
    then show ?thesis using full r p ok by simp
  next
    case room: False
    then show ?thesis using v ok by simp
  qed
  then obtain v1 hw1 where
    g: "(if element_capacity v \<le> element_count v then reallocate esz v hw (grow_capacity v)
         else (v, hw, True)) = (v1, hw1, True)"
    and p1: "vec_inv esz hw1 v1" "\<forall>n. hw_map_ok hw1 n" "element_count v1 = element_count v"
      "element_count v + 1 \<le> element_capacity v1" "contents esz hw1 v1 = contents esz hw v"
    by blast
  have pn1: "pos \<le> element_count v1" and room1: "element_count v1 + 1 \<le> element_capacity v1"
    using pn p1 by simp_all
  from insert_tail[OF p1(1,2) le pn1 room1] obtain m hw2 temp m1 hw3 where
    f: "fold (\<lambda>i. move_element esz (i - 1) i) (rev [pos + 1..<element_count v1 + 1])
        (memory v1, hw1, replicate esz 0) = (m, hw2, temp)"
    and w: "write_b m hw2 val (size_t (pos * esz)) esz = (m1, hw3, esz)"
    and st: "size_t (element_count v1 + 1) = element_count v1 + 1"
    and inv: "vec_inv esz hw3 (v1\<lparr>memory := m1, element_count := element_count v1 + 1\<rparr>)"
    and ok3: "\<forall>n. hw_map_ok hw3 n"
    and c: "contents esz hw3 (v1\<lparr>memory := m1, element_count := element_count v1 + 1\<rparr>)
          = take pos (contents esz hw1 v1) @ val # drop pos (contents esz hw1 v1)"
    by blast
  let ?v' = "v1\<lparr>memory := m1, element_count := element_count v1 + 1\<rparr>"
  have ins: "insert_at esz v hw pos val = (?v', hw3)"
    using False g f w st by (simp add: insert_at_def)
  have rb: "\<forall>t. length t = esz \<longrightarrow> access_value (at_pos esz ?v' hw3 t pos) = Inr val"
  proof (intro allI impI)
    fix t :: "byte list" assume t: "length t = esz"
    have "pos < element_count ?v'" using pn1 by simp
    from at_pos_value[OF inv ok3 this t]
    show "access_value (at_pos esz ?v' hw3 t pos) = Inr val"
      unfolding c using pn1 by (simp add: nth_append contents_def)
  qed
  show ?thesis
    unfolding ins using False inv c rb p1 by (simp add: size_v_def)
qed

lemma count_fits:
  assumes v: "vec_inv esz hw v" and room: "n \<le> element_capacity v"
  shows "n \<le> SIZE_MAX"
proof -
  from v have e0: "0 < esz" and bi: "blk_inv hw (memory v)" by (simp_all add: vec_inv_def)
  have "n * 1 \<le> n * esz" using e0 by (intro mult_le_mono2) simp
  also have "\<dots> \<le> size_b (memory v)" by (rule vec_inv_fit[OF v room])
  also have "\<dots> \<le> SIZE_MAX" using bi by (simp add: blk_inv_def)
  finally show ?thesis by simp
qed

lemma push_back_step:
  assumes v: "vec_inv esz hw v"
    and gr: "element_capacity v \<le> element_count v \<Longrightarrow>
               hw_alloc_ok hw (hw_alloc_calls hw)
               \<and> max (2 * element_capacity v) min_elements * esz + ESP_HIMEM_BLKSZ - 1
                   \<le> SIZE_MAX"
  shows "\<exists>v' hw'. push_back esz v hw x = (v', hw')
      \<and> vec_inv esz hw' v' \<and> element_count v' = element_count v + 1
      \<and> hw_alloc_ok hw' = hw_alloc_ok hw \<and> hw_map_ok hw' = hw_map_ok hw
      \<and> (if element_capacity v \<le> element_count v
          then size_b (memory v')
                 = round_up_blksz (max (2 * element_capacity v) min_elements * esz)
               \<and> max (2 * element_capacity v) min_elements \<le> element_capacity v'
          else size_b (memory v') = size_b (memory v)
               \<and> element_capacity v' = element_capacity v)"
proof -
  from v have e0: "0 < esz" and cc: "element_count v \<le> element_capacity v"
    by (simp_all add: vec_inv_def)
  have "\<exists>v1 hw1.
      (if element_capacity v \<le> element_count v then reallocate esz v hw (grow_capacity v)
       else (v, hw, True)) = (v1, hw1, True)
      \<and> vec_inv esz hw1 v1 \<and> element_count v1 = element_count v
      \<and> element_count v + 1 \<le> element_capacity v1
      \<and> hw_alloc_ok hw1 = hw_alloc_ok hw \<and> hw_map_ok hw1 = hw_map_ok hw
      \<and> (if element_capacity v \<le> element_count v
          then size_b (memory v1)
                 = round_up_blksz (max (2 * element_capacity v) min_elements * esz)
               \<and> max (2 * element_capacity v) min_elements \<le> element_capacity v1
          else size_b (memory v1) = size_b (memory v)
               \<and> element_capacity v1 = element_capacity v)"
  proof (cases "element_capacity v \<le> element_count v")
    case full: True
    from gr[OF full] have al: "hw_alloc_ok hw (hw_alloc_calls hw)"
      and nov: "max (2 * element_capacity v) min_elements * esz + ESP_HIMEM_BLKSZ - 1
                   \<le> SIZE_MAX" by simp_all
    note g = grow_capacity_eq[OF nov e0]
    from reallocate_spec[OF v g(2) al] nov obtain v1 hw1 where
      r: "reallocate esz v hw (grow_capacity v) = (v1, hw1, True)"
      and p: "vec_inv esz hw1 v1" "element_count v1 = element_count v"
        "size_b (memory v1) = round_up_blksz (max (grow_capacity v) min_elements * esz)"
        "max (grow_capacity v) min_elements \<le> element_capacity v1"
        "hw_alloc_ok hw1 = hw_alloc_ok hw" "hw_map_ok hw1 = hw_map_ok hw"
      unfolding g(1) by blast
    have "element_count v + 1 \<le> max (2 * element_capacity v) min_elements"
      using full cc by (simp add: min_elements_def max_def)
    from order_trans[OF this p(4)[unfolded g(1)]]
    have "element_count v + 1 \<le> element_capacity v1" .
    then show ?thesis using full r p unfolding g(1) by simp
  next
    case room: False
    then show ?thesis using v by simp
  qed
  then obtain v1 hw1 where
    g: "(if element_capacity v \<le> element_count v then reallocate esz v hw (grow_capacity v)
         else (v, hw, True)) = (v1, hw1, True)"
    and p1: "vec_inv esz hw1 v1" "element_count v1 = element_count v"
      "element_count v + 1 \<le> element_capacity v1"
      "hw_alloc_ok hw1 = hw_alloc_ok hw" "hw_map_ok hw1 = hw_map_ok hw"
    and sz: "if element_capacity v \<le> element_count v
          then size_b (memory v1)
                 = round_up_blksz (max (2 * element_capacity v) min_elements * esz)
               \<and> max (2 * element_capacity v) min_elements \<le> element_capacity v1
          else size_b (memory v1) = size_b (memory v)
               \<and> element_capacity v1 = element_capacity v"
    by blast
  from p1(1) have i1: "hw_inv hw1" and b1: "blk_inv hw1 (memory v1)"
    and cap1: "element_capacity v1 = size_b (memory v1) div esz"
    and h1: "handle (memory v1) = 0 \<longrightarrow> size_b (memory v1) = 0"
    by (simp_all add: vec_inv_def)
  obtain m hw2 n where
    w: "write_b (memory v1) hw1 x (size_t (element_count v1 * esz)) esz = (m, hw2, n)"
    by (cases "write_b (memory v1) hw1 x (size_t (element_count v1 * esz)) esz")
  from write_b_keeps[OF i1 b1, of x "size_t (element_count v1 * esz)" esz] w
  have p2: "hw_inv hw2" "blk_inv hw2 m" "handle m = handle (memory v1)"
    "size_b m = size_b (memory v1)" "hw_frame (handle (memory v1)) hw1 hw2" by simp_all
  have "element_count v1 + 1 \<le> SIZE_MAX"
    by (rule count_fits[OF p1(1)]) (use p1 in simp)
  then have st: "size_t (element_count v1 + 1) = element_count v + 1"
    using p1(2) by (simp add: size_t_id)
  let ?v' = "v1\<lparr>memory := m, element_count := element_count v + 1\<rparr>"
  have pb: "push_back esz v hw x = (?v', hw2)"
    using g w st by (simp add: push_back_def)
  have inv: "vec_inv esz hw2 ?v'"
    using e0 p2 p1(3) cap1 h1 by (simp add: vec_inv_def)
  show ?thesis
    unfolding pb using inv sz p2(4) p1 frame_oracles[OF p2(5)] by (simp split: if_splits)
qed

lemma round_up_blksz_mult:
  assumes "ESP_HIMEM_BLKSZ dvd n" "n + ESP_HIMEM_BLKSZ - 1 \<le> SIZE_MAX"
  shows "round_up_blksz n = n"
proof -
  note r = round_up_blksz_exact[OF assms(2)]
  have "ESP_HIMEM_BLKSZ dvd round_up_blksz n - n" using r(1) assms(1) by (rule dvd_diff_nat)
  moreover have "round_up_blksz n - n < ESP_HIMEM_BLKSZ" using r(2,3) by simp
  ultimately have "round_up_blksz n - n = 0"
    using nat_dvd_not_less by (cases "round_up_blksz n - n = 0") auto
  with r(2) show ?thesis by simp
qed

lemma round_up_blksz_small:
  assumes "0 < n" "n \<le> ESP_HIMEM_BLKSZ"
  shows "round_up_blksz n = ESP_HIMEM_BLKSZ"
proof -
  have b: "n + ESP_HIMEM_BLKSZ - 1 \<le> SIZE_MAX"
    using assms(2) by (simp add: ESP_HIMEM_BLKSZ_def SIZE_MAX_def)
  note r = round_up_blksz_exact[OF b]
  from r(1) obtain q where q: "round_up_blksz n = ESP_HIMEM_BLKSZ * q" by (auto simp: dvd_def)
  have "0 < q" using q r(2) assms(1) by (cases q) simp_all
  moreover have "q < 2"
  proof (rule ccontr)
    assume "\<not> q < 2"
    then have "2 \<le> q" by simp
    then have "ESP_HIMEM_BLKSZ * 2 \<le> ESP_HIMEM_BLKSZ * q" by (rule mult_le_mono2)
    with q r(3) assms(2) show False by simp
  qed
  ultimately have "q = 1" by simp
  with q show ?thesis by simp
qed

lemma pow2_first_capacity:
  fixes k :: nat
  assumes nov: "min_elements * 2 ^ k + ESP_HIMEM_BLKSZ - 1 \<le> SIZE_MAX"
  shows "round_up_blksz (min_elements * 2 ^ k)
           = (round_up_blksz (min_elements * 2 ^ k) div 2 ^ k) * 2 ^ k
         \<and> (\<exists>j. round_up_blksz (min_elements * 2 ^ k) div 2 ^ k = min_elements * 2 ^ j)"
proof (cases "k \<le> 11")
  case True
  have B: "ESP_HIMEM_BLKSZ = 2 ^ 15" by (simp add: ESP_HIMEM_BLKSZ_def)
  have m: "min_elements = 2 ^ 4" by (simp add: min_elements_def)
  have "(2::nat) ^ (4 + k) \<le> 2 ^ 15" using True by (intro power_increasing) simp_all
  then have le: "min_elements * 2 ^ k \<le> ESP_HIMEM_BLKSZ" unfolding B m by (simp add: power_add)
  have pos: "0 < min_elements * 2 ^ k" by (simp add: min_elements_def)
  have r: "round_up_blksz (min_elements * 2 ^ k) = 2 ^ 15"
    using round_up_blksz_small[OF pos le] B by simp
  have "(15::nat) = (15 - k) + k" using True by simp
  then have pe: "(2::nat) ^ 15 = 2 ^ (15 - k) * 2 ^ k" by (metis power_add)
  have "(2::nat) ^ (15 - k) * 2 ^ k div 2 ^ k = 2 ^ (15 - k)"
    by (rule div_mult_self_is_m) simp
  then have d: "(2::nat) ^ 15 div 2 ^ k = 2 ^ (15 - k)" unfolding pe[symmetric] .
  have "15 - k = 4 + (11 - k)" using True by simp
  then have e: "(2::nat) ^ (15 - k) = min_elements * 2 ^ (11 - k)"
    unfolding m by (metis power_add)
  show ?thesis unfolding r d using pe e by blast
next
  case False
  have B: "ESP_HIMEM_BLKSZ = 2 ^ 15" by (simp add: ESP_HIMEM_BLKSZ_def)
  have m: "min_elements = 2 ^ 4" by (simp add: min_elements_def)
  have "(2::nat) ^ 15 dvd 2 ^ (4 + k)" using False by (intro le_imp_power_dvd) simp
  then have dv: "ESP_HIMEM_BLKSZ dvd min_elements * 2 ^ k" unfolding B m by (simp add: power_add)
  have r: "round_up_blksz (min_elements * 2 ^ k) = min_elements * 2 ^ k"
    by (rule round_up_blksz_mult[OF dv nov])
  have "min_elements * 2 ^ k div 2 ^ k = min_elements * 2 ^ 0" by simp
  then show ?thesis unfolding r by (metis div_mult_self_is_m nonzero_mult_div_cancel_right
        power_not_zero zero_neq_numeral)
qed

lemma push_all_snoc:
  "push_all esz (xs @ [x]) st = (case push_all esz xs st of (v, hw) \<Rightarrow> push_back esz v hw x)"
  by (simp add: push_all_def)

lemma push_all_inv:
  assumes i: "hw_inv hw" and al: "\<forall>n. hw_alloc_ok hw n" and e0: "0 < esz"
    and nov: "(2 * length xs + min_elements) * esz + ESP_HIMEM_BLKSZ \<le> SIZE_MAX + 1"
  shows "\<exists>v' hw'. push_all esz xs (VectorHIMEM, hw) = (v', hw')
      \<and> vec_inv esz hw' v' \<and> element_count v' = length xs
      \<and> (\<forall>n. hw_alloc_ok hw' n)
      \<and> (xs = [] \<longrightarrow> element_capacity v' = 0)
      \<and> (xs \<noteq> [] \<longrightarrow> min_elements \<le> element_capacity v')
      \<and> (\<forall>k. esz = 2 ^ k \<longrightarrow> xs \<noteq> [] \<longrightarrow>
            size_b (memory v') = element_capacity v' * esz
            \<and> (\<exists>j. element_capacity v' = min_elements * 2 ^ j))"
  using nov
proof (induction xs rule: rev_induct)
  case Nil
  have "vec_inv esz hw VectorHIMEM"
    using i e0 HimemBlock_inv[OF i] by (simp add: vec_inv_def VectorHIMEM_def HimemBlock_def)
  then show ?case using al by (simp add: push_all_def VectorHIMEM_def)
next
  case (snoc x xs)
  let ?n = "length xs"
  have "(2 * ?n + min_elements) * esz \<le> (2 * length (xs @ [x]) + min_elements) * esz"
    by (intro mult_le_mono1) simp
  with snoc.prems have b0: "(2 * ?n + min_elements) * esz + ESP_HIMEM_BLKSZ \<le> SIZE_MAX + 1"
    by simp
  from snoc.IH[OF b0] obtain v1 hw1 where
    pa: "push_all esz xs (VectorHIMEM, hw) = (v1, hw1)"
    and p: "vec_inv esz hw1 v1" "element_count v1 = ?n" "\<forall>n. hw_alloc_ok hw1 n"
      "xs = [] \<longrightarrow> element_capacity v1 = 0"
      "xs \<noteq> [] \<longrightarrow> min_elements \<le> element_capacity v1"
    and pw: "\<forall>k. esz = 2 ^ k \<longrightarrow> xs \<noteq> [] \<longrightarrow>
            size_b (memory v1) = element_capacity v1 * esz
            \<and> (\<exists>j. element_capacity v1 = min_elements * 2 ^ j)"
    by blast
  let ?c = "element_capacity v1"
  have nov1: "max (2 * ?c) min_elements * esz + ESP_HIMEM_BLKSZ - 1 \<le> SIZE_MAX"
    if full: "?c \<le> element_count v1"
  proof -
    have "max (2 * ?c) min_elements \<le> 2 * ?n + min_elements" using full p(2) by simp
    then have "max (2 * ?c) min_elements * esz \<le> (2 * ?n + min_elements) * esz"
      by (rule mult_le_mono1)
    from order_trans[OF add_le_mono1[OF this] b0]
    have "max (2 * ?c) min_elements * esz + ESP_HIMEM_BLKSZ \<le> SIZE_MAX + 1" .
    then show ?thesis by simp
  qed
  have gr: "?c \<le> element_count v1 \<Longrightarrow>
               hw_alloc_ok hw1 (hw_alloc_calls hw1)
               \<and> max (2 * ?c) min_elements * esz + ESP_HIMEM_BLKSZ - 1 \<le> SIZE_MAX"
    using p(3) nov1 by simp
  from push_back_step[OF p(1) gr, of x] obtain v2 hw2 where
    pb: "push_back esz v1 hw1 x = (v2, hw2)"
    and q: "vec_inv esz hw2 v2" "element_count v2 = element_count v1 + 1"
      "hw_alloc_ok hw2 = hw_alloc_ok hw1"
    and sz: "if ?c \<le> element_count v1
          then size_b (memory v2) = round_up_blksz (max (2 * ?c) min_elements * esz)
               \<and> max (2 * ?c) min_elements \<le> element_capacity v2
          else size_b (memory v2) = size_b (memory v1) \<and> element_capacity v2 = ?c"
    by blast
  from q(1) have cap2: "element_capacity v2 = size_b (memory v2) div esz"
    by (simp add: vec_inv_def)
  have res: "push_all esz (xs @ [x]) (VectorHIMEM, hw) = (v2, hw2)"
    by (simp add: push_all_snoc pa pb)
  have nonfull: "xs \<noteq> []" if "\<not> ?c \<le> element_count v1"
    using that p(4) by auto
  have me: "min_elements \<le> element_capacity v2"
  proof (cases "?c \<le> element_count v1")
    case True
    with sz show ?thesis by simp
  next
    case False
    with sz p(5) nonfull[OF False] show ?thesis by simp
  qed
  have pw2: "size_b (memory v2) = element_capacity v2 * esz
            \<and> (\<exists>j. element_capacity v2 = min_elements * 2 ^ j)" if k: "esz = 2 ^ k" for k
  proof (cases "?c \<le> element_count v1")
    case False
    with sz pw k nonfull[OF False] show ?thesis by simp
  next
    case full: True
    with sz have s2: "size_b (memory v2) = round_up_blksz (max (2 * ?c) min_elements * esz)"
      by simp
    show ?thesis
    proof (cases "xs = []")
      case True
      with p(4) have c0: "?c = 0" by simp
      from nov1[OF full] have "min_elements * 2 ^ k + ESP_HIMEM_BLKSZ - 1 \<le> SIZE_MAX"
        by (simp add: c0 k)
      from pow2_first_capacity[OF this] show ?thesis
        unfolding cap2 s2 by (simp add: c0 k)
    next
      case False
      with pw k obtain j where s1: "size_b (memory v1) = ?c * esz"
        and cj: "?c = min_elements * 2 ^ j" by blast
      from p(5) False have c16: "min_elements \<le> ?c" by simp
      then have mx: "max (2 * ?c) min_elements = 2 * ?c" by simp
      have cpos: "0 < ?c" using c16 by (simp add: min_elements_def)
      from p(1) have bi: "blk_inv hw1 (memory v1)" by (simp add: vec_inv_def)
      have "handle (memory v1) \<noteq> 0" by (rule vec_inv_handle[OF p(1) cpos])
      with bi have "ESP_HIMEM_BLKSZ dvd size_b (memory v1)" by (simp add: blk_inv_def)
      then have "ESP_HIMEM_BLKSZ dvd 2 * (?c * esz)" unfolding s1 by (rule dvd_mult)
      then have dv: "ESP_HIMEM_BLKSZ dvd 2 * ?c * esz" by (simp add: mult.assoc)
      from nov1[OF full] have "2 * ?c * esz + ESP_HIMEM_BLKSZ - 1 \<le> SIZE_MAX"
        unfolding mx .
      from round_up_blksz_mult[OF dv this] have s3: "size_b (memory v2) = 2 * ?c * esz"
        unfolding s2 mx .
      have c2: "element_capacity v2 = 2 * ?c" unfolding cap2 s3 using e0 by simp
      have "2 * ?c = min_elements * 2 ^ Suc j" unfolding cj by simp
      then show ?thesis unfolding c2 s3 by blast
    qed
  qed
  show ?case
    unfolding res using q p(2,3) me pw2 by simp
qed

lemma grow_capacity_val:
  assumes "max (2 * element_capacity v) min_elements * esz + ESP_HIMEM_BLKSZ - 1 \<le> SIZE_MAX"
    "0 < esz"
  shows "grow_capacity v
         = (if element_capacity v = 0 then min_elements else 2 * element_capacity v)"
proof -
  let ?c = "element_capacity v"
  have "2 * ?c \<le> max (2 * ?c) min_elements * 1" by simp
  also have "\<dots> \<le> max (2 * ?c) min_elements * esz"
    using assms(2) by (intro mult_le_mono2) simp
  also have "\<dots> \<le> SIZE_MAX" using assms(1) by (simp add: ESP_HIMEM_BLKSZ_def)
  finally have "size_t (?c * 2) = 2 * ?c" by (simp add: size_t_id mult.commute)
  then show ?thesis by (simp add: grow_capacity_def)
qed

text \<open>
  C2 as amended. Starting from a default-constructed vector on a well-formed driver
  that grants every allocation (the mapping requests may be granted or not), with the
  byte sizes within \<open>size_t\<close>, \<open>push_back\<close> of \<open>N\<close> elements gives size \<open>N\<close> and a
  capacity of at least \<open>N\<close>. The capacity is the size of the allocation, a whole number
  of blocks, divided by the element size; it is at least 16 once an element has been
  pushed, and it is 16 times a power of two when the element size is a power of two.
  A \<open>push_back\<close> on a full vector asks for the capacity 16 if the capacity is 0 and
  twice the capacity otherwise, and the capacity afterwards is the byte size of the
  larger of that and 16 elements, rounded up to whole blocks, divided by the element size.
\<close>

theorem push_back_n_size_capacity:
  assumes "hw_inv hw" "\<forall>n. hw_alloc_ok hw n" "0 < esz"
    and "(2 * length xs + min_elements) * esz + ESP_HIMEM_BLKSZ \<le> SIZE_MAX + 1"
  shows "(case push_all esz xs (VectorHIMEM, hw) of (v', hw') \<Rightarrow>
            size_v v' = length xs \<and> length xs \<le> capacity v'
          \<and> capacity v' = get_size (memory v') div esz
          \<and> ESP_HIMEM_BLKSZ dvd get_size (memory v')
          \<and> (xs \<noteq> [] \<longrightarrow> min_elements \<le> capacity v')
          \<and> ((\<exists>k. esz = 2 ^ k) \<and> xs \<noteq> [] \<longrightarrow> (\<exists>j. capacity v' = min_elements * 2 ^ j)))
       \<and> (vec_inv esz hw0 v0 \<and> element_capacity v0 \<le> element_count v0
            \<and> hw_alloc_ok hw0 (hw_alloc_calls hw0)
            \<and> max (2 * element_capacity v0) min_elements * esz + ESP_HIMEM_BLKSZ - 1
                \<le> SIZE_MAX \<longrightarrow>
          grow_capacity v0
            = (if element_capacity v0 = 0 then min_elements else 2 * element_capacity v0)
          \<and> capacity (fst (push_back esz v0 hw0 x0))
              = round_up_blksz (max (grow_capacity v0) min_elements * esz) div esz
          \<and> max (grow_capacity v0) min_elements \<le> capacity (fst (push_back esz v0 hw0 x0)))"
proof (intro conjI impI)
  from push_all_inv[OF assms] obtain v' hw' where
    pa: "push_all esz xs (VectorHIMEM, hw) = (v', hw')"
    and p: "vec_inv esz hw' v'" "element_count v' = length xs"
      "xs \<noteq> [] \<longrightarrow> min_elements \<le> element_capacity v'"
    and pw: "\<forall>k. esz = 2 ^ k \<longrightarrow> xs \<noteq> [] \<longrightarrow>
            size_b (memory v') = element_capacity v' * esz
            \<and> (\<exists>j. element_capacity v' = min_elements * 2 ^ j)"
    by blast
  from p(1) have cc: "element_count v' \<le> element_capacity v'"
    and cap: "element_capacity v' = size_b (memory v') div esz"
    and bi: "blk_inv hw' (memory v')"
    and h0: "handle (memory v') = 0 \<longrightarrow> size_b (memory v') = 0"
    by (simp_all add: vec_inv_def)
  have dv: "ESP_HIMEM_BLKSZ dvd size_b (memory v')"
    using bi h0 by (cases "handle (memory v') = 0") (simp_all add: blk_inv_def)
  have "(\<exists>k. esz = 2 ^ k) \<and> xs \<noteq> [] \<longrightarrow> (\<exists>j. element_capacity v' = min_elements * 2 ^ j)"
    using pw by blast
  then show "case push_all esz xs (VectorHIMEM, hw) of (v', hw') \<Rightarrow>
            size_v v' = length xs \<and> length xs \<le> capacity v'
          \<and> capacity v' = get_size (memory v') div esz
          \<and> ESP_HIMEM_BLKSZ dvd get_size (memory v')
          \<and> (xs \<noteq> [] \<longrightarrow> min_elements \<le> capacity v')
          \<and> ((\<exists>k. esz = 2 ^ k) \<and> xs \<noteq> [] \<longrightarrow> (\<exists>j. capacity v' = min_elements * 2 ^ j))"
    unfolding pa using p cc cap dv by (simp add: size_v_def capacity_def get_size_def)
next
  assume a: "vec_inv esz hw0 v0 \<and> element_capacity v0 \<le> element_count v0
            \<and> hw_alloc_ok hw0 (hw_alloc_calls hw0)
            \<and> max (2 * element_capacity v0) min_elements * esz + ESP_HIMEM_BLKSZ - 1
                \<le> SIZE_MAX"
  then have v: "vec_inv esz hw0 v0" and full: "element_capacity v0 \<le> element_count v0"
    and nov: "max (2 * element_capacity v0) min_elements * esz + ESP_HIMEM_BLKSZ - 1
                \<le> SIZE_MAX" by simp_all
  from a have gr: "element_capacity v0 \<le> element_count v0 \<Longrightarrow>
               hw_alloc_ok hw0 (hw_alloc_calls hw0)
               \<and> max (2 * element_capacity v0) min_elements * esz + ESP_HIMEM_BLKSZ - 1
                   \<le> SIZE_MAX" by simp
  from push_back_step[OF v gr, of x0] full obtain v' hw' where
    pb: "push_back esz v0 hw0 x0 = (v', hw')" and inv: "vec_inv esz hw' v'"
    and s: "size_b (memory v')
              = round_up_blksz (max (2 * element_capacity v0) min_elements * esz)"
      "max (2 * element_capacity v0) min_elements \<le> element_capacity v'"
    by auto
  from inv have cap: "element_capacity v' = size_b (memory v') div esz"
    by (simp add: vec_inv_def)
  note g = grow_capacity_eq(1)[OF nov assms(3)]
  show "grow_capacity v0
            = (if element_capacity v0 = 0 then min_elements else 2 * element_capacity v0)"
    by (rule grow_capacity_val[OF nov assms(3)])
  show "capacity (fst (push_back esz v0 hw0 x0))
              = round_up_blksz (max (grow_capacity v0) min_elements * esz) div esz"
    unfolding pb g by (simp add: capacity_def cap s)
  show "max (grow_capacity v0) min_elements \<le> capacity (fst (push_back esz v0 hw0 x0))"
    unfolding pb g using s(2) by (simp add: capacity_def)
qed

theorem push_back_n_size_capacity_witness:
  "hw_inv ex_hw0 \<and> (\<forall>n. hw_alloc_ok ex_hw0 n)
   \<and> (case push_all 4 [[1, 0, 0, 0], [2, 0, 0, 0], [3, 0, 0, 0]] (VectorHIMEM, ex_hw0) of
        (v', hw') \<Rightarrow>
          size_v v' = 3 \<and> 3 \<le> capacity v' \<and> min_elements \<le> capacity v'
          \<and> (\<exists>j. capacity v' = min_elements * 2 ^ j))
   \<and> capacity (fst (push_back 4 VectorHIMEM ex_hw0 [1, 0, 0, 0]))
       = round_up_blksz (min_elements * 4) div 4"
proof -
  have al: "\<forall>n. hw_alloc_ok ex_hw0 n" by (simp add: ex_hw0_def)
  have e: "0 < (4::nat)" by simp
  have b: "(2 * length [[1, 0, 0, 0], [2, 0, 0, 0], [3, 0, 0, 0 :: byte]] + min_elements) * 4
      + ESP_HIMEM_BLKSZ \<le> SIZE_MAX + 1"
    by (simp add: min_elements_def ESP_HIMEM_BLKSZ_def SIZE_MAX_def)
  have v0: "vec_inv 4 ex_hw0 VectorHIMEM"
    using ex_hw0_inv HimemBlock_inv[OF ex_hw0_inv]
    by (simp add: vec_inv_def VectorHIMEM_def HimemBlock_def)
  have h: "vec_inv 4 ex_hw0 VectorHIMEM
      \<and> element_capacity VectorHIMEM \<le> element_count VectorHIMEM
      \<and> hw_alloc_ok ex_hw0 (hw_alloc_calls ex_hw0)
      \<and> max (2 * element_capacity VectorHIMEM) min_elements * 4 + ESP_HIMEM_BLKSZ - 1
          \<le> SIZE_MAX"
    using v0 al
    by (simp add: VectorHIMEM_def min_elements_def ESP_HIMEM_BLKSZ_def SIZE_MAX_def)
  have p2: "\<exists>k. (4::nat) = 2 ^ k" by (rule exI[of _ 2]) simp
  have g: "grow_capacity VectorHIMEM = min_elements"
    by (simp add: grow_capacity_def VectorHIMEM_def)
  obtain v' hw' where
    pa: "push_all 4 [[1, 0, 0, 0], [2, 0, 0, 0], [3, 0, 0, 0]] (VectorHIMEM, ex_hw0) = (v', hw')"
    by (cases "push_all 4 [[1, 0, 0, 0], [2, 0, 0, 0], [3, 0, 0, 0]] (VectorHIMEM, ex_hw0)")
  note t = push_back_n_size_capacity[OF ex_hw0_inv al e b, of ex_hw0 VectorHIMEM "[1, 0, 0, 0]",
      unfolded pa prod.case]
  from t have c1: "size_v v' = 3" "3 \<le> capacity v'" "min_elements \<le> capacity v'"
    by simp_all
  have ne: "[[1, 0, 0, 0], [2, 0, 0, 0], [3, 0, 0, 0 :: byte]] \<noteq> []" by simp
  from t p2 ne have c2: "\<exists>j. capacity v' = min_elements * 2 ^ j" by blast
  from t h have c3: "capacity (fst (push_back 4 VectorHIMEM ex_hw0 [1, 0, 0, 0]))
       = round_up_blksz (max (grow_capacity VectorHIMEM) min_elements * 4) div 4" by blast
  show ?thesis unfolding pa using ex_hw0_inv al c1 c2 c3 by (simp add: g)
qed

lemma ex_path_state:
  "fst ex_path = \<lparr>memory = \<lparr>handle = 4, range_h = 0, mapped_ptr = 0, size_b = 65536,
                            current_mapped_block = SIZE_MAX\<rparr>,
                  element_count = 2, element_capacity = 65536\<rparr>"
  "hw_map_calls (snd ex_path) = 5"
  "hw_map_ok (snd ex_path) = (\<lambda>n. n < 4)"
  "hw_ram (snd ex_path) 4 0 = 1"
  "hw_ram (snd ex_path) 4 1 = 2"
  "hw_ram (snd ex_path) 4 2 = 0"
  "hw_regions (snd ex_path) = [(4, 65536)]"
  "hw_maps (snd ex_path) = []"
  by (simp_all add: ex_path_def ex_hw_maps4_def reserve_def subscript_def copy_element_def
      eval_defs)

lemma ensure_denied:
  assumes "mapped_ptr b = 0" "block_index \<noteq> current_mapped_block b"
    "\<not> hw_map_ok hw (hw_map_calls hw)"
  shows "ensure_block_mapped b hw block_index
         = (b, hw\<lparr>hw_map_calls := hw_map_calls hw + 1,
                   hw_log := hw_log hw @ [Ev_alloc_map_range None]\<rparr>, False)"
  using assms by (simp add: ensure_block_mapped_def esp_himem_alloc_map_range_def)

lemma read_denied:
  assumes "mapped_ptr b = 0" "offset div ESP_HIMEM_BLKSZ \<noteq> current_mapped_block b"
    "\<not> hw_map_ok hw (hw_map_calls hw)" "handle b \<noteq> 0" "offset < size_b b" "0 < len"
  shows "read b hw t offset len
         = (b, hw\<lparr>hw_map_calls := hw_map_calls hw + 1,
                   hw_log := hw_log hw @ [Ev_alloc_map_range None]\<rparr>, t, 0)"
proof -
  have "read_loop b hw t (min len (size_b b - offset)) (offset div ESP_HIMEM_BLKSZ)
          (offset mod ESP_HIMEM_BLKSZ) 0
        = (b, hw\<lparr>hw_map_calls := hw_map_calls hw + 1,
                  hw_log := hw_log hw @ [Ev_alloc_map_range None]\<rparr>, t, 0)"
    by (subst read_loop.simps) (use assms in \<open>simp add: ensure_denied\<close>)
  moreover have "min len (size_b b - offset) \<noteq> 0" using assms by simp
  ultimately show ?thesis using assms(4,5) by (simp add: read_def Let_def)
qed

lemma write_denied:
  assumes "mapped_ptr b = 0" "offset div ESP_HIMEM_BLKSZ \<noteq> current_mapped_block b"
    "\<not> hw_map_ok hw (hw_map_calls hw)" "handle b \<noteq> 0" "offset < size_b b" "0 < len"
  shows "write_b b hw src offset len
         = (b, hw\<lparr>hw_map_calls := hw_map_calls hw + 1,
                   hw_log := hw_log hw @ [Ev_alloc_map_range None]\<rparr>, 0)"
proof -
  have "write_loop b hw src (min len (size_b b - offset)) (offset div ESP_HIMEM_BLKSZ)
          (offset mod ESP_HIMEM_BLKSZ) 0
        = (b, hw\<lparr>hw_map_calls := hw_map_calls hw + 1,
                  hw_log := hw_log hw @ [Ev_alloc_map_range None]\<rparr>, 0)"
    by (subst write_loop.simps) (use assms in \<open>simp add: ensure_denied\<close>)
  moreover have "min len (size_b b - offset) \<noteq> 0" using assms by simp
  ultimately show ?thesis using assms(4,5) by (simp add: write_b_def Let_def)
qed

lemma ex_path_ram:
  "hw_ram (snd ex_path) 4 (Suc 0) = 2" "hw_ram (snd ex_path) 4 (Suc (Suc 0)) = 0"
  using ex_path_state(5,6) by (simp_all add: numeral_2_eq_2)

lemmas denied_defs = ex_path_state ex_path_ram read_denied write_denied move_element_def
  contents_def element_at_def region_bytes_def size_v_def size_t_def ESP_HIMEM_BLKSZ_def
  SIZE_MAX_def numeral_2_eq_2 numeral_3_eq_3

lemma ex_path_insert:
  "fst (insert_at 1 (fst ex_path) (snd ex_path) 0 [7])
     = \<lparr>memory = \<lparr>handle = 4, range_h = 0, mapped_ptr = 0, size_b = 65536,
                     current_mapped_block = SIZE_MAX\<rparr>,
        element_count = 3, element_capacity = 65536\<rparr>"
  "hw_ram (snd (insert_at 1 (fst ex_path) (snd ex_path) 0 [7])) = hw_ram (snd ex_path)"
  "hw_map_ok (snd (insert_at 1 (fst ex_path) (snd ex_path) 0 [7])) = (\<lambda>n. n < 4)"
  "hw_map_calls (snd (insert_at 1 (fst ex_path) (snd ex_path) 0 [7])) = 10"
proof -
  have r: "rev [1..<3] = [2, Suc 0]" by (simp add: numeral_2_eq_2 numeral_3_eq_3)
  have s3: "size_t 3 = 3" by (simp add: size_t_def)
  let ?B = "\<lparr>handle = 4, range_h = 0, mapped_ptr = 0, size_b = 65536,
             current_mapped_block = SIZE_MAX\<rparr>"
  obtain hw' where
    f: "move_element 1 0 (Suc 0) (move_element 1 (Suc 0) 2 (?B, snd ex_path, replicate 1 0))
         = (?B, hw', [0])"
    and h: "hw_ram hw' = hw_ram (snd ex_path)" "hw_map_ok hw' = (\<lambda>n. n < 4)"
      "hw_map_calls hw' = 9"
    by (simp add: ex_path_state read_denied write_denied move_element_def size_t_def
        ESP_HIMEM_BLKSZ_def SIZE_MAX_def)
  have w: "write_b ?B hw' [7] (size_t 0) 1
      = (?B, hw'\<lparr>hw_map_calls := hw_map_calls hw' + 1,
                  hw_log := hw_log hw' @ [Ev_alloc_map_range None]\<rparr>, 0)"
    by (rule write_denied) (simp_all add: h size_t_def ESP_HIMEM_BLKSZ_def SIZE_MAX_def)
  have i: "insert_at 1 (fst ex_path) (snd ex_path) 0 [7]
      = (\<lparr>memory = ?B, element_count = 3, element_capacity = 65536\<rparr>,
         hw'\<lparr>hw_map_calls := hw_map_calls hw' + 1,
             hw_log := hw_log hw' @ [Ev_alloc_map_range None]\<rparr>)"
    unfolding insert_at_def ex_path_state(1) by (simp add: r f w s3 del: One_nat_def)
  show "fst (insert_at 1 (fst ex_path) (snd ex_path) 0 [7])
     = \<lparr>memory = ?B, element_count = 3, element_capacity = 65536\<rparr>"
    "hw_ram (snd (insert_at 1 (fst ex_path) (snd ex_path) 0 [7])) = hw_ram (snd ex_path)"
    "hw_map_ok (snd (insert_at 1 (fst ex_path) (snd ex_path) 0 [7])) = (\<lambda>n. n < 4)"
    "hw_map_calls (snd (insert_at 1 (fst ex_path) (snd ex_path) 0 [7])) = 10"
    unfolding i by (simp_all add: h)
qed

text \<open>
  C8 as amended. \<open>front\<close> and \<open>back\<close> do not check for the empty vector and never
  signal: they return the staging value after the same \<open>read\<close> as on a vector with
  elements. On an empty vector without allocation both leave everything as it was and
  return the staging bytes as they were. \<open>back\<close> reads at the wrapped offset
  \<open>(2 ^ 32 - 1) * sizeof(T)\<close> and returns the staging bytes as they were whenever the
  allocation ends at or before that offset. \<open>front\<close> returns the bytes stored at offset
  0 of the allocation when the vector's block agrees with the driver, the allocation and
  the staging buffer hold at least one element and every mapping request is granted; and
  it returns the staging bytes as they were when the window is closed and the next
  mapping request is denied.
\<close>

theorem front_back_empty_unchecked:
  assumes "element_count v = 0"
  shows "(\<exists>t'. access_value (front esz v hw t) = Inr t')
     \<and> (\<exists>t'. access_value (back_v esz v hw t) = Inr t')
     \<and> (handle (memory v) = 0 \<longrightarrow>
           front esz v hw t = Inr (v, hw, t) \<and> back_v esz v hw t = Inr (v, hw, t))
     \<and> (size_b (memory v) \<le> size_t (SIZE_MAX * esz) \<longrightarrow>
           back_v esz v hw t = Inr (v, hw, t))
     \<and> (hw_inv hw \<and> blk_inv hw (memory v) \<and> (\<forall>n. hw_map_ok hw n)
           \<and> handle (memory v) \<noteq> 0 \<and> esz \<le> size_b (memory v) \<and> esz \<le> length t \<longrightarrow>
           access_value (front esz v hw t)
             = Inr (region_bytes hw (handle (memory v)) 0 esz @ drop esz t))
     \<and> (mapped_ptr (memory v) = 0 \<and> current_mapped_block (memory v) \<noteq> 0
           \<and> \<not> hw_map_ok hw (hw_map_calls hw) \<longrightarrow>
           access_value (front esz v hw t) = Inr t)"
proof (intro conjI impI)
  show "\<exists>t'. access_value (front esz v hw t) = Inr t'"
    by (simp add: front_def access_value_def split: prod.splits)
  show "\<exists>t'. access_value (back_v esz v hw t) = Inr t'"
    by (simp add: back_v_def access_value_def split: prod.splits)
next
  assume "handle (memory v) = 0"
  then show "front esz v hw t = Inr (v, hw, t)" "back_v esz v hw t = Inr (v, hw, t)"
    by (simp_all add: front_def back_v_def read_unallocated)
next
  assume "size_b (memory v) \<le> size_t (SIZE_MAX * esz)"
  moreover have "sub_size_t (element_count v) 1 = SIZE_MAX"
    by (simp add: assms sub_size_t_def SIZE_MAX_def)
  ultimately show "back_v esz v hw t = Inr (v, hw, t)"
    by (simp add: back_v_def read_def)
next
  assume a: "hw_inv hw \<and> blk_inv hw (memory v) \<and> (\<forall>n. hw_map_ok hw n)
           \<and> handle (memory v) \<noteq> 0 \<and> esz \<le> size_b (memory v) \<and> esz \<le> length t"
  then have c: "clamp_len (memory v) 0 esz = esz" by (simp add: clamp_len_def)
  from a have "\<forall>n. hw_map_ok hw n" "hw_inv hw" "blk_inv hw (memory v)" "esz \<le> length t"
    by simp_all
  from read_spec[OF this, of 0] obtain b' hw' where
    "read (memory v) hw t 0 esz =
       (b', hw', region_bytes hw (handle (memory v)) 0 esz @ drop esz t, esz)"
    unfolding c by blast
  then show "access_value (front esz v hw t)
             = Inr (region_bytes hw (handle (memory v)) 0 esz @ drop esz t)"
    by (simp add: front_def access_value_def)
next
  assume a: "mapped_ptr (memory v) = 0 \<and> current_mapped_block (memory v) \<noteq> 0
           \<and> \<not> hw_map_ok hw (hw_map_calls hw)"
  have "\<exists>m hw'. read (memory v) hw t 0 esz = (m, hw', t, 0)"
  proof (cases "handle (memory v) \<noteq> 0 \<and> 0 < size_b (memory v) \<and> 0 < esz")
    case True
    have "0 div ESP_HIMEM_BLKSZ \<noteq> current_mapped_block (memory v)" using a by simp
    from read_denied[OF _ this, of hw esz t] a True show ?thesis by simp
  next
    case False
    then show ?thesis by (auto simp: read_def)
  qed
  then show "access_value (front esz v hw t) = Inr t"
    by (auto simp: front_def access_value_def)
qed

theorem front_back_empty_unchecked_witness:
  "element_count VectorHIMEM = 0
   \<and> front 1 VectorHIMEM ex_hw0 [9] = Inr (VectorHIMEM, ex_hw0, [9])
   \<and> back_v 1 VectorHIMEM ex_hw0 [9] = Inr (VectorHIMEM, ex_hw0, [9])
   \<and> access_value (front 1 \<lparr>memory = ex_blk1, element_count = 0, element_capacity = 65536\<rparr>
                     ex_hw1 [9]) = Inr [0]
   \<and> element_count (clear (fst ex_path)) = 0
   \<and> \<not> hw_map_ok (snd ex_path) (hw_map_calls (snd ex_path))
   \<and> access_value (front 1 (clear (fst ex_path)) (snd ex_path) [9]) = Inr [9]"
proof -
  let ?V = "\<lparr>memory = ex_blk1, element_count = 0, element_capacity = 65536\<rparr>"
  have 1: "element_count VectorHIMEM = 0" by (simp add: VectorHIMEM_def)
  have 2: "element_count ?V = 0" by simp
  have 3: "element_count (clear (fst ex_path)) = 0" by (simp add: clear_def)
  have h0: "handle (memory VectorHIMEM) = 0" by (simp add: VectorHIMEM_def HimemBlock_def)
  from front_back_empty_unchecked[OF 1, of 1 ex_hw0 "[9]"] h0
  have A: "front 1 VectorHIMEM ex_hw0 [9] = Inr (VectorHIMEM, ex_hw0, [9])
      \<and> back_v 1 VectorHIMEM ex_hw0 [9] = Inr (VectorHIMEM, ex_hw0, [9])"
    by blast
  have H: "hw_inv ex_hw1 \<and> blk_inv ex_hw1 (memory ?V) \<and> (\<forall>n. hw_map_ok ex_hw1 n)
      \<and> handle (memory ?V) \<noteq> 0 \<and> 1 \<le> size_b (memory ?V) \<and> 1 \<le> length [9 :: byte]"
    using ex_hw1_inv ex_blk1_inv by (simp add: ex_blk1_def ex_hw1_def)
  from front_back_empty_unchecked[OF 2, of 1 ex_hw1 "[9]"] H
  have "access_value (front 1 ?V ex_hw1 [9])
      = Inr (region_bytes ex_hw1 (handle (memory ?V)) 0 1 @ drop 1 [9])"
    by blast
  moreover have "region_bytes ex_hw1 (handle (memory ?V)) 0 1 = [0]"
    by (simp add: region_bytes_def ex_hw1_def)
  ultimately have B: "access_value (front 1 ?V ex_hw1 [9]) = Inr [0]" by simp
  have D: "\<not> hw_map_ok (snd ex_path) (hw_map_calls (snd ex_path))"
    by (simp add: ex_path_state)
  have "mapped_ptr (memory (clear (fst ex_path))) = 0
      \<and> current_mapped_block (memory (clear (fst ex_path))) \<noteq> 0
      \<and> \<not> hw_map_ok (snd ex_path) (hw_map_calls (snd ex_path))"
    by (simp add: ex_path_state clear_def SIZE_MAX_def)
  with front_back_empty_unchecked[OF 3, of 1 "snd ex_path" "[9]"]
  have C: "access_value (front 1 (clear (fst ex_path)) (snd ex_path) [9]) = Inr [9]"
    by blast
  from 1 A B 3 D C show ?thesis by simp
qed

text \<open>
  C4. The claim fails when the driver denies a mapping request: the source ignores
  the results of \<open>read\<close> and \<open>write\<close>. On the vector holding 1 and 2 with its window
  closed, \<open>erase(0)\<close> takes the count to 1 and moves nothing, so the vector holds 1
  where the claim has 2.
\<close>

theorem erase_mapping_denied_counterexample:
  "size_v (fst ex_path) = 2
   \<and> contents 1 (snd ex_path) (fst ex_path) = [[1], [2]]
   \<and> size_v (fst (erase 1 (fst ex_path) (snd ex_path) 0)) = 1
   \<and> contents 1 (snd (erase 1 (fst ex_path) (snd ex_path) 0))
        (fst (erase 1 (fst ex_path) (snd ex_path) 0)) = [[1]]"
  by (simp add: erase_def denied_defs)

text \<open>
  C4 as amended. \<open>erase\<close> changes nothing when the position is at or beyond the count.
  Otherwise the count is one less and the capacity is the same; and, on a vector in
  agreement with the driver and with every mapping request granted, the contents
  afterwards are the elements before the position followed by the elements after it,
  each of the latter one index lower.
\<close>

theorem erase_removes_one:
  "case erase esz v hw pos of (v', hw') \<Rightarrow>
       (element_count v \<le> pos \<longrightarrow> v' = v \<and> hw' = hw)
     \<and> (pos < element_count v \<longrightarrow>
          size_v v' = size_v v - 1 \<and> capacity v' = capacity v
        \<and> (vec_inv esz hw v \<and> (\<forall>n. hw_map_ok hw n) \<longrightarrow>
             contents esz hw' v'
               = take pos (contents esz hw v) @ drop (pos + 1) (contents esz hw v)
           \<and> vec_inv esz hw' v'))"
proof (cases "vec_inv esz hw v \<and> (\<forall>n. hw_map_ok hw n)")
  case True
  then have "vec_inv esz hw v" "\<forall>n. hw_map_ok hw n" by simp_all
  from erase_spec[OF this, of pos] show ?thesis by (simp split: prod.splits)
next
  case False
  then show ?thesis
    by (auto simp: erase_def size_v_def capacity_def split: prod.splits)
qed

theorem erase_removes_one_witness:
  "vec_inv 1 ex_hw1 ex_vec1 \<and> (\<forall>n. hw_map_ok ex_hw1 n)
   \<and> (case erase 1 ex_vec1 ex_hw1 0 of (v', hw') \<Rightarrow>
         size_v v' = 1 \<and> capacity v' = 65536
         \<and> contents 1 hw' v' = drop 1 (contents 1 ex_hw1 ex_vec1))
   \<and> erase 1 ex_vec1 ex_hw1 2 = (ex_vec1, ex_hw1)"
proof -
  have ok: "\<forall>n. hw_map_ok ex_hw1 n" by (simp add: ex_hw1_def)
  have c: "element_count ex_vec1 = 2" "size_v ex_vec1 = 2" "capacity ex_vec1 = 65536"
    by (simp_all add: ex_vec1_def size_v_def capacity_def)
  from erase_removes_one[where esz = 1 and v = ex_vec1 and hw = ex_hw1 and pos = 0]
    erase_removes_one[where esz = 1 and v = ex_vec1 and hw = ex_hw1 and pos = 2]
  show ?thesis using ex_vec1_inv ok by (simp add: c split: prod.splits)
qed

text \<open>
  C3. The claim fails when the driver denies a mapping request, although no growth
  is needed: on the vector holding 1 and 2 with its window closed, \<open>insert(0, 7)\<close>
  takes the count to 3 and stores nothing, so the vector holds 1, 2 and the byte 0 that
  was in the allocation, and \<open>at(0)\<close> returns the staging byte 9 of the caller.
\<close>

theorem insert_mapping_denied_counterexample:
  "size_v (fst ex_path) = 2
   \<and> contents 1 (snd ex_path) (fst ex_path) = [[1], [2]]
   \<and> capacity (fst ex_path) = 65536
   \<and> size_v (fst (insert_at 1 (fst ex_path) (snd ex_path) 0 [7])) = 3
   \<and> contents 1 (snd (insert_at 1 (fst ex_path) (snd ex_path) 0 [7]))
        (fst (insert_at 1 (fst ex_path) (snd ex_path) 0 [7])) = [[1], [2], [0]]
   \<and> access_value (at_pos 1 (fst (insert_at 1 (fst ex_path) (snd ex_path) 0 [7]))
                       (snd (insert_at 1 (fst ex_path) (snd ex_path) 0 [7])) [9] 0) = Inr [9]"
proof -
  obtain v' hw' where i: "insert_at 1 (fst ex_path) (snd ex_path) 0 [7] = (v', hw')"
    by (cases "insert_at 1 (fst ex_path) (snd ex_path) 0 [7]")
  note f = ex_path_insert[unfolded i fst_conv snd_conv]
  have r: "hw_ram hw' 4 0 = 1" "hw_ram hw' 4 (Suc 0) = 2" "hw_ram hw' 4 (Suc (Suc 0)) = 0"
    unfolding f(2) by (simp_all add: ex_path_state ex_path_ram)
  have d: "\<not> hw_map_ok hw' (hw_map_calls hw')" unfolding f(3,4) by simp
  have a: "access_value (at_pos 1 v' hw' [9] 0) = Inr [9]"
    unfolding at_pos_def f(1)
    by (simp add: access_value_def read_denied d size_t_def ESP_HIMEM_BLKSZ_def SIZE_MAX_def)
  have c: "contents 1 hw' v' = [[1], [2], [0]]"
    unfolding contents_def element_at_def f(1)
    by (simp add: region_bytes_def r numeral_3_eq_3)
  have c0: "contents 1 (snd ex_path) (fst ex_path) = [[1], [2]]"
    unfolding contents_def element_at_def ex_path_state(1)
    by (simp add: region_bytes_def ex_path_state ex_path_ram numeral_2_eq_2)
  have s: "size_v (fst ex_path) = 2" "capacity (fst ex_path) = 65536" "size_v v' = 3"
    unfolding size_v_def capacity_def f(1) ex_path_state(1) by simp_all
  show ?thesis unfolding i fst_conv snd_conv using a c c0 s by simp
qed

text \<open>
  C3 as amended. \<open>insert\<close> changes nothing when the position is beyond the count.
  Otherwise, on a vector in agreement with the driver, with every mapping request granted
  and, when the vector is full, the growth allocation granted (its byte size within
  \<open>size_t\<close>), the contents afterwards are the elements before the position, the new
  value, and the elements from the position on, each one index higher; the count is one
  more, and \<open>at\<close> reads the new value back at the position.
\<close>

theorem insert_shifts_up:
  "case insert_at esz v hw pos val of (v', hw') \<Rightarrow>
       (element_count v < pos \<longrightarrow> v' = v \<and> hw' = hw)
     \<and> (pos \<le> element_count v \<and> vec_inv esz hw v \<and> (\<forall>n. hw_map_ok hw n)
          \<and> length val = esz
          \<and> (element_capacity v \<le> element_count v \<longrightarrow>
               hw_alloc_ok hw (hw_alloc_calls hw)
               \<and> max (2 * element_capacity v) min_elements * esz + ESP_HIMEM_BLKSZ - 1
                   \<le> SIZE_MAX) \<longrightarrow>
          size_v v' = size_v v + 1
        \<and> contents esz hw' v'
            = take pos (contents esz hw v) @ val # drop pos (contents esz hw v)
        \<and> vec_inv esz hw' v'
        \<and> (\<forall>t. length t = esz \<longrightarrow> access_value (at_pos esz v' hw' t pos) = Inr val))"
proof (cases "vec_inv esz hw v \<and> (\<forall>n. hw_map_ok hw n) \<and> length val = esz
          \<and> (element_capacity v \<le> element_count v \<longrightarrow>
               hw_alloc_ok hw (hw_alloc_calls hw)
               \<and> max (2 * element_capacity v) min_elements * esz + ESP_HIMEM_BLKSZ - 1
                   \<le> SIZE_MAX)")
  case True
  then have v: "vec_inv esz hw v" and ok: "\<forall>n. hw_map_ok hw n" and le: "length val = esz"
    and gr: "element_capacity v \<le> element_count v \<Longrightarrow>
               hw_alloc_ok hw (hw_alloc_calls hw)
               \<and> max (2 * element_capacity v) min_elements * esz + ESP_HIMEM_BLKSZ - 1
                   \<le> SIZE_MAX"
    by simp_all
  from insert_spec[OF v ok le gr, of pos] show ?thesis by (simp split: prod.splits)
next
  case False
  then show ?thesis by (auto simp: insert_at_def split: prod.splits)
qed

theorem insert_shifts_up_witness:
  "vec_inv 1 ex_hw1 ex_vec1 \<and> (\<forall>n. hw_map_ok ex_hw1 n) \<and> length [7 :: byte] = 1
   \<and> (case insert_at 1 ex_vec1 ex_hw1 1 [7] of (v', hw') \<Rightarrow>
         size_v v' = 3
         \<and> contents 1 hw' v'
             = take 1 (contents 1 ex_hw1 ex_vec1) @ [7] # drop 1 (contents 1 ex_hw1 ex_vec1))
   \<and> (case insert_at 1 VectorHIMEM ex_hw0 0 [7] of (v', hw') \<Rightarrow>
         size_v v' = 1 \<and> contents 1 hw' v' = [[7]])
   \<and> insert_at 1 ex_vec1 ex_hw1 3 [7] = (ex_vec1, ex_hw1)"
proof -
  have ok1: "\<forall>n. hw_map_ok ex_hw1 n" and ok0: "\<forall>n. hw_map_ok ex_hw0 n"
    by (simp_all add: ex_hw1_def ex_hw0_def)
  have l: "length [7 :: byte] = 1" by simp
  have v0: "vec_inv 1 ex_hw0 VectorHIMEM"
    using ex_hw0_inv HimemBlock_inv[OF ex_hw0_inv]
    by (simp add: vec_inv_def VectorHIMEM_def HimemBlock_def)
  have g1: "element_capacity ex_vec1 \<le> element_count ex_vec1 \<longrightarrow>
      hw_alloc_ok ex_hw1 (hw_alloc_calls ex_hw1)
      \<and> max (2 * element_capacity ex_vec1) min_elements * 1 + ESP_HIMEM_BLKSZ - 1 \<le> SIZE_MAX"
    by (simp add: ex_vec1_def)
  have g0: "element_capacity VectorHIMEM \<le> element_count VectorHIMEM \<longrightarrow>
      hw_alloc_ok ex_hw0 (hw_alloc_calls ex_hw0)
      \<and> max (2 * element_capacity VectorHIMEM) min_elements * 1 + ESP_HIMEM_BLKSZ - 1
          \<le> SIZE_MAX"
    by (simp add: VectorHIMEM_def ex_hw0_def min_elements_def ESP_HIMEM_BLKSZ_def SIZE_MAX_def)
  have c: "element_count ex_vec1 = 2" "size_v ex_vec1 = 2"
    "element_count VectorHIMEM = 0" "size_v VectorHIMEM = 0"
    by (simp_all add: ex_vec1_def size_v_def VectorHIMEM_def)
  have c0: "contents (Suc 0) ex_hw0 VectorHIMEM = []"
    by (simp add: VectorHIMEM_def contents_def)
  have p1: "(1::nat) \<le> element_count ex_vec1" and p0: "(0::nat) \<le> element_count VectorHIMEM"
    by (simp_all add: c)
  obtain a b where e1: "insert_at 1 ex_vec1 ex_hw1 1 [7] = (a, b)"
    by (cases "insert_at 1 ex_vec1 ex_hw1 1 [7]")
  obtain a0 b0 where e0: "insert_at 1 VectorHIMEM ex_hw0 0 [7] = (a0, b0)"
    by (cases "insert_at 1 VectorHIMEM ex_hw0 0 [7]")
  from insert_shifts_up[where esz = 1 and v = ex_vec1 and hw = ex_hw1 and pos = 1 and val = "[7]",
      unfolded e1 prod.case]
    p1 ex_vec1_inv ok1 l g1
  have A: "size_v a = size_v ex_vec1 + 1
      \<and> contents 1 b a
         = take 1 (contents 1 ex_hw1 ex_vec1) @ [7] # drop 1 (contents 1 ex_hw1 ex_vec1)"
    by blast
  from insert_shifts_up[where esz = 1 and v = VectorHIMEM and hw = ex_hw0 and pos = 0 and val = "[7]",
      unfolded e0 prod.case]
    p0 v0 ok0 l g0
  have B: "size_v a0 = size_v VectorHIMEM + 1
      \<and> contents 1 b0 a0
         = take 0 (contents 1 ex_hw0 VectorHIMEM) @ [7] # drop 0 (contents 1 ex_hw0 VectorHIMEM)"
    by blast
  from insert_shifts_up[where esz = 1 and v = ex_vec1 and hw = ex_hw1 and pos = 3 and val = "[7]"]
  have C: "insert_at 1 ex_vec1 ex_hw1 3 [7] = (ex_vec1, ex_hw1)"
    by (simp add: c split: prod.splits)
  show ?thesis unfolding e1 e0 using A B C ex_vec1_inv ok1 by (simp add: c c0)
qed

end
